theory Spec2Isabelle
  imports Main "HOL-Library.Log_Nat"
begin

section \<open>Values of the program\<close>

text \<open>
  Errors raised by the Python code, as values. \<open>IndexError\<close> is a list index out of
  range, \<open>ValueError\<close> is raised by numpy (arrays whose shapes do not fit, a scale the
  sampler rejects).
\<close>

datatype py_error = IndexError | ValueError

text \<open>
  A numpy \<open>float64\<close>: an IEEE 754 binary64 number. \<open>Finite s m e\<close> has the value
  \<open>(-1)^s * m * 2^e\<close>; the representable ones have \<open>m < 2^53\<close> and
  \<open>-1074 \<le> e \<le> 971\<close>. Both zeros are \<open>Finite s 0 e\<close>.
\<close>

datatype double = Finite bool nat int | Infinity bool | NaN

definition is_double :: "double \<Rightarrow> bool" where
  "is_double x =
     (case x of Finite s m e \<Rightarrow> m < 2 ^ 53 \<and> - 1074 \<le> e \<and> e \<le> 971 | _ \<Rightarrow> True)"

text \<open>Unary minus flips the sign bit and nothing else.\<close>

fun fneg :: "double \<Rightarrow> double" where
  "fneg (Finite s m e) = Finite (\<not> s) m e"
| "fneg (Infinity s) = Infinity (\<not> s)"
| "fneg NaN = NaN"

text \<open>The comparison \<open>x == 0.\<close>: true of both zeros, false of everything else.\<close>

fun feq0 :: "double \<Rightarrow> bool" where
  "feq0 (Finite s m e) = (m = 0)"
| "feq0 _ = False"

section \<open>Python strings and lists\<close>

text \<open>\<open>sep.join(xs)\<close>.\<close>

fun join :: "string \<Rightarrow> string list \<Rightarrow> string" where
  "join sep [] = []"
| "join sep [x] = x"
| "join sep (x # y # ys) = x @ sep @ join sep (y # ys)"

text \<open>The decimal digits of a natural number, and \<open>'%i' % n\<close> for an integer.\<close>

definition digit_char :: "nat \<Rightarrow> char" where
  "digit_char d = char_of (48 + d)"

function str_nat :: "nat \<Rightarrow> string" where
  "str_nat n = (if n < 10 then [digit_char n] else str_nat (n div 10) @ [digit_char (n mod 10)])"
  by pat_completeness auto
termination
  by (relation "measure id") auto

definition str_int :: "int \<Rightarrow> string" where
  "str_int i = (if i < 0 then CHR ''-'' # str_nat (nat (- i)) else str_nat (nat i))"

text \<open>
  \<open>xs[i]\<close> on a Python list: a negative index counts from the end, and an index
  outside \<open>-len(xs) .. len(xs) - 1\<close> raises.
\<close>

definition py_index :: "'a list \<Rightarrow> int \<Rightarrow> py_error + 'a" where
  "py_index xs i =
     (if 0 \<le> i \<and> i < int (length xs) then Inr (xs ! nat i)
      else if i < 0 \<and> - int (length xs) \<le> i then Inr (xs ! nat (i + int (length xs)))
      else Inl IndexError)"

section \<open>numpy arrays\<close>

text \<open>
  An array of two or three dimensions: its shape and its elements by index. Only the
  elements inside the shape are ever read.
\<close>

record 'a ndarray2 =
  shape2 :: "nat \<times> nat"
  item2 :: "nat \<Rightarrow> nat \<Rightarrow> 'a"

record 'a ndarray3 =
  shape3 :: "nat \<times> nat \<times> nat"
  item3 :: "nat \<Rightarrow> nat \<Rightarrow> nat \<Rightarrow> 'a"

text \<open>\<open>-a\<close>, elementwise.\<close>

definition neg2 :: "double ndarray2 \<Rightarrow> double ndarray2" where
  "neg2 a = a\<lparr>item2 := (\<lambda>i j. fneg (item2 a i j))\<rparr>"

text \<open>\<open>N.expand_dims(a, 2)\<close> of a two-dimensional array: a new last axis of length 1.\<close>

definition expand_dims :: "'a ndarray2 \<Rightarrow> 'a ndarray3" where
  "expand_dims a =
     \<lparr>shape3 = (fst (shape2 a), snd (shape2 a), 1), item3 = (\<lambda>i j k. item2 a i j)\<rparr>"

text \<open>
  \<open>N.dstack((a, b))\<close> of two three-dimensional arrays: concatenation along the last
  axis. The first two axes must agree, or numpy raises ValueError.
\<close>

definition dstack :: "'a ndarray3 \<Rightarrow> 'a ndarray3 \<Rightarrow> py_error + 'a ndarray3" where
  "dstack a b =
     (case (shape3 a, shape3 b) of ((a0, a1, a2), (b0, b1, b2)) \<Rightarrow>
        if a0 = b0 \<and> a1 = b1
        then Inr \<lparr>shape3 = (a0, a1, a2 + b2),
                  item3 = (\<lambda>i j k. if k < a2 then item3 a i j k else item3 b i j (k - a2))\<rparr>
        else Inl ValueError)"

text \<open>
  Iterating over a three-dimensional array yields its sub-arrays along the first axis;
  iterating over one of those yields its rows, each a sequence of \<open>shape[2]\<close> values.
\<close>

definition line_of :: "'a ndarray3 \<Rightarrow> nat \<Rightarrow> nat \<Rightarrow> 'a list" where
  "line_of a w i = map (item3 a w i) [0..<snd (snd (shape3 a))]"

definition walker_of :: "'a ndarray3 \<Rightarrow> nat \<Rightarrow> 'a list list" where
  "walker_of a w = map (line_of a w) [0..<fst (snd (shape3 a))]"

definition walkers :: "'a ndarray3 \<Rightarrow> 'a list list list" where
  "walkers a = map (walker_of a) [0..<fst (shape3 a)]"

section \<open>The parameter catalogue\<close>

text \<open>
  Modelled from the spec: the entries of \<open>pool.params\<close>, built by the module
  \<open>emcee_pool\<close>. The spec's ParameterDescriptor has an index, a name, a unit (possibly
  empty) and an initial value; \<open>writeXSpecChain\<close> reads the fields \<open>name\<close> and \<open>unit\<close>.
\<close>

record param =
  name :: string
  unit :: string

section \<open>writeXSpecChain\<close>

text \<open>
  One entry of the header, \<open>"%i %s %s" % (idx, params[idx-1]['name'], u)\<close> where \<open>u\<close> is
  \<open>"0"\<close> for an empty unit and the unit otherwise.
\<close>

definition hdr_entry :: "param list \<Rightarrow> int \<Rightarrow> py_error + string" where
  "hdr_entry params idx =
     (case py_index params (idx - 1) of
        Inl e \<Rightarrow> Inl e
      | Inr p \<Rightarrow>
          Inr (str_int idx @ '' '' @ name p @ '' '' @ (if unit p = [] then ''0'' else unit p)))"

text \<open>The loop \<open>for idx in paridxs: hdr.append(...)\<close>, stopping at the first error.\<close>

fun hdr_loop :: "param list \<Rightarrow> int list \<Rightarrow> string list \<Rightarrow> py_error + string list" where
  "hdr_loop params [] hdr = Inr hdr"
| "hdr_loop params (idx # rest) hdr =
     (case hdr_entry params idx of
        Inl e \<Rightarrow> Inl e
      | Inr s \<Rightarrow> hdr_loop params rest (hdr @ [s]))"

text \<open>
  One data line: \<open>'\t'.join(['%g']*len(line)) % tuple(line) + '\n'\<close>. The format has
  one \<open>%g\<close> per value, separated by tabs, so the line is the values rendered by \<open>%g\<close>
  and joined by tabs. The rendering of a float by \<open>%g\<close> is the parameter \<open>fmt_g\<close>.
\<close>

definition data_line :: "(double \<Rightarrow> string) \<Rightarrow> double list \<Rightarrow> string" where
  "data_line fmt_g line = join [CHR 0x09] (map fmt_g line) @ [CHR 0x0A]"

text \<open>The nested loop over walkers and their lines: one write per line.\<close>

definition data_lines :: "(double \<Rightarrow> string) \<Rightarrow> double ndarray3 \<Rightarrow> string list" where
  "data_lines fmt_g a = concat (map (map (data_line fmt_g)) (walkers a))"

text \<open>
  The function returns the strings passed to \<open>f.write\<close>, in order (the file holds their
  concatenation), and the exception that ended it, if any. Opening the file and the
  writes themselves are taken to succeed. What was written before an exception stays in
  the file.
\<close>

definition writeXSpecChain ::
  "(double \<Rightarrow> string) \<Rightarrow> double ndarray3 \<Rightarrow> double ndarray2 \<Rightarrow> param list \<Rightarrow> int list
     \<Rightarrow> string list \<times> py_error option" where
  "writeXSpecChain fmt_g chain lnprob params paridxs =
     (let f1 = [''! Markov chain file generated by xspec \"chain\" command.'' @ [CHR 0x0A],
                ''!    Do not modify, else file may not reload properly.'' @ [CHR 0x0A]];
          len = fst (shape3 chain) * fst (snd (shape3 chain));
          width = snd (snd (shape3 chain));
          f2 = f1 @ [''!Length: '' @ str_int (int len) @ ''  Width: ''
                       @ str_int (int (width + 1)) @ [CHR 0x0A]]
      in case hdr_loop params paridxs [] of
           Inl e \<Rightarrow> (f2, Some e)
         | Inr hdr \<Rightarrow>
             (let f3 = f2 @ [''!'' @ join '' '' (hdr @ [''Chi-Squared'']) @ [CHR 0x0A]]
              in case dstack chain (expand_dims (neg2 lnprob)) of
                   Inl e \<Rightarrow> (f3, Some e)
                 | Inr a \<Rightarrow> (f3 @ data_lines fmt_g a, None)))"

section \<open>float64 multiplication\<close>

text \<open>
  \<open>round_shift m k\<close> is \<open>m / 2^k\<close> rounded to the nearest integer, ties to the even
  one: the rounding of IEEE 754 arithmetic in its default mode.
\<close>

definition round_shift :: "nat \<Rightarrow> nat \<Rightarrow> nat" where
  "round_shift m k =
     (let q = m div 2 ^ k; r = m mod 2 ^ k
      in if 2 ^ k < 2 * r \<or> (2 * r = 2 ^ k \<and> odd q) then q + 1 else q)"

text \<open>
  The float64 nearest to the exact value \<open>(-1)^s * m * 2^e\<close>. The significand keeps 53
  bits and the exponent does not go below \<open>-1074\<close>, so \<open>k\<close> low bits are rounded away;
  a value that rounds to \<open>2^1024\<close> or more overflows to infinity, and one that rounds
  to nothing underflows to zero.
\<close>

definition round_finite :: "bool \<Rightarrow> nat \<Rightarrow> int \<Rightarrow> double" where
  "round_finite s m e =
     (let k = nat (max (bitlen (int m) - 53) (- 1074 - e));
          m1 = round_shift m k;
          e1 = e + int k;
          m2 = (if m1 = 2 ^ 53 then 2 ^ 52 else m1);
          e2 = (if m1 = 2 ^ 53 then e1 + 1 else e1)
      in if m2 = 0 then Finite s 0 (- 1074)
         else if 1024 < bitlen (int m2) + e2 then Infinity s
         else if 971 < e2 then Finite s (m2 * 2 ^ nat (e2 - 971)) 971
         else Finite s m2 e2)"

text \<open>\<open>x * y\<close> on float64.\<close>

fun fmul :: "double \<Rightarrow> double \<Rightarrow> double" where
  "fmul (Finite s m e) (Finite t n f) = round_finite (s \<noteq> t) (m * n) (e + f)"
| "fmul (Finite s m e) (Infinity t) = (if m = 0 then NaN else Infinity (s \<noteq> t))"
| "fmul (Infinity s) (Finite t n f) = (if n = 0 then NaN else Infinity (s \<noteq> t))"
| "fmul (Infinity s) (Infinity t) = Infinity (s \<noteq> t)"
| "fmul NaN y = NaN"
| "fmul x NaN = NaN"

text \<open>The comparisons \<open>x < 0\<close> and \<open>x <= 0\<close>; both are false of NaN.\<close>

fun flt0 :: "double \<Rightarrow> bool" where
  "flt0 (Finite s m e) = (s \<and> m \<noteq> 0)"
| "flt0 (Infinity s) = s"
| "flt0 NaN = False"

fun fle0 :: "double \<Rightarrow> bool" where
  "fle0 (Finite s m e) = (s \<or> m = 0)"
| "fle0 (Infinity s) = s"
| "fle0 NaN = False"

text \<open>
  The literal \<open>0.01\<close>: the float64 nearest to one hundredth, \<open>0x3F847AE147AE147B\<close>,
  which is \<open>5764607523034235 * 2^-59\<close>.
\<close>

definition c_0_01 :: double where
  "c_0_01 = Finite False 5764607523034235 (- 59)"

text \<open>
  The values whose product with \<open>0.01\<close> does not underflow to zero: infinities, NaN, and
  the finite values of magnitude at least \<open>50 * 2^-1074\<close> (about \<open>2.47e-322\<close>).
\<close>

definition above_underflow :: "double \<Rightarrow> bool" where
  "above_underflow x =
     (case x of Finite s m e \<Rightarrow> - 1074 \<le> e \<and> 50 \<le> m * 2 ^ nat (e + 1074) | _ \<Rightarrow> True)"

section \<open>doMCMC: the initial walker positions\<close>

text \<open>
  \<open>N.where(parvals == 0., 0.01, parvals * 0.01)\<close>: the condition and the product are
  computed for the whole array, then chosen from element by element.
\<close>

definition np_where :: "bool list \<Rightarrow> 'a \<Rightarrow> 'a list \<Rightarrow> 'a list" where
  "np_where cond x ys = map (\<lambda>(c, y). if c then x else y) (zip cond ys)"

definition parerrs_of :: "double list \<Rightarrow> double list" where
  "parerrs_of parvals = np_where (map feq0 parvals) c_0_01 (map (\<lambda>v. fmul v c_0_01) parvals)"

text \<open>
  Broadcasting of two one-dimensional arrays: equal lengths pair up, an array of length
  one is repeated, anything else is a ValueError.
\<close>

definition broadcast :: "'a list \<Rightarrow> 'b list \<Rightarrow> py_error + ('a \<times> 'b) list" where
  "broadcast xs ys =
     (if length xs = length ys then Inr (zip xs ys)
      else if length xs = 1 then Inr (map (\<lambda>y. (hd xs, y)) ys)
      else if length ys = 1 then Inr (map (\<lambda>x. (x, hd ys)) xs)
      else Inl ValueError)"

text \<open>
  \<open>N.random.normal(loc, scale)\<close> on arrays. The numpy releases of the program's time
  (it is Python 2 code of 2012) raise ValueError (\<open>scale <= 0\<close>) when any scale is
  negative or zero, of either sign; later releases test the sign bit of the scale
  instead. Both refuse every negative scale and \<open>-0.0\<close>; the model keeps the check of
  the program's time. Otherwise one value is drawn per pair of the broadcast arrays,
  advancing the state of the generator. The draw of one normal variate is the parameter
  \<open>draw\<close>.
\<close>

fun draws :: "('g \<Rightarrow> double \<Rightarrow> double \<Rightarrow> double \<times> 'g) \<Rightarrow> 'g \<Rightarrow> (double \<times> double) list
    \<Rightarrow> double list \<times> 'g" where
  "draws draw g [] = ([], g)"
| "draws draw g ((loc, scale) # rest) =
     (case draw g loc scale of (x, g1) \<Rightarrow>
        (case draws draw g1 rest of (xs, g2) \<Rightarrow> (x # xs, g2)))"

definition random_normal :: "('g \<Rightarrow> double \<Rightarrow> double \<Rightarrow> double \<times> 'g) \<Rightarrow> 'g \<Rightarrow> double list
    \<Rightarrow> double list \<Rightarrow> py_error + double list \<times> 'g" where
  "random_normal draw g loc scale =
     (if list_ex fle0 scale then Inl ValueError
      else case broadcast loc scale of
             Inl e \<Rightarrow> Inl e
           | Inr pairs \<Rightarrow> Inr (draws draw g pairs))"

text \<open>
  \<open>[N.random.normal(parvals, parerrs) for i in xrange(nwalkers)]\<close>: \<open>n\<close> calls, one
  after the other; the first exception ends the comprehension.
\<close>

fun p0_loop :: "('g \<Rightarrow> double \<Rightarrow> double \<Rightarrow> double \<times> 'g) \<Rightarrow> double list \<Rightarrow> double list
    \<Rightarrow> nat \<Rightarrow> 'g \<Rightarrow> py_error + double list list \<times> 'g" where
  "p0_loop draw parvals parerrs 0 g = Inr ([], g)"
| "p0_loop draw parvals parerrs (Suc n) g =
     (case random_normal draw g parvals parerrs of
        Inl e \<Rightarrow> Inl e
      | Inr (v, g1) \<Rightarrow>
          (case p0_loop draw parvals parerrs n g1 of
             Inl e \<Rightarrow> Inl e
           | Inr (vs, g2) \<Rightarrow> Inr (v # vs, g2)))"

text \<open>
  Lines 29 to 32 of \<open>doMCMC\<close>: the initial batch \<open>p0\<close> from the catalogue's initial
  values \<open>pool.parvals\<close>. \<open>xrange(nwalkers)\<close> is empty for \<open>nwalkers \<le> 0\<close>.
\<close>

definition doMCMC_p0 :: "('g \<Rightarrow> double \<Rightarrow> double \<Rightarrow> double \<times> 'g) \<Rightarrow> 'g \<Rightarrow> double list \<Rightarrow> int
    \<Rightarrow> py_error + double list list \<times> 'g" where
  "doMCMC_p0 draw g parvals nwalkers =
     (let parerrs = parerrs_of parvals
      in p0_loop draw parvals parerrs (nat nwalkers) g)"

section \<open>main: the list of systems\<close>

text \<open>The whitespace of a Python 2 \<open>str\<close>: space, tab, newline, return, VT and FF.\<close>

definition is_space :: "char \<Rightarrow> bool" where
  "is_space c = (c \<in> set [CHR 0x20, CHR 0x09, CHR 0x0A, CHR 0x0D, CHR 0x0B, CHR 0x0C])"

text \<open>
  \<open>s.split()\<close>: the maximal runs of characters that are not whitespace. \<open>cur\<close> is the
  run being read.
\<close>

fun split_acc :: "string \<Rightarrow> string \<Rightarrow> string list" where
  "split_acc [] cur = (if cur = [] then [] else [cur])"
| "split_acc (c # cs) cur =
     (if is_space c then (if cur = [] then split_acc cs [] else cur # split_acc cs [])
      else split_acc cs (cur @ [c]))"

definition split :: "string \<Rightarrow> string list" where
  "split s = split_acc s []"

text \<open>
  The value of \<open>args.systems\<close>: the string given to \<open>--systems\<close>, or the default
  \<open>"localhost"\<close> of the option when it is not given (\<open>None\<close>).
\<close>

definition args_systems :: "string option \<Rightarrow> string" where
  "args_systems opt = (case opt of None \<Rightarrow> ''localhost'' | Some s \<Rightarrow> s)"

text \<open>The argument \<open>systems = args.systems.split()\<close> that \<open>main\<close> gives to \<open>doMCMC\<close>,
  which hands it to \<open>emcee_pool.Pool\<close> unchanged.\<close>

definition main_systems :: "string option \<Rightarrow> string list" where
  "main_systems opt = split (args_systems opt)"

section \<open>The pool\<close>

text \<open>
  Modelled from the spec: the module \<open>emcee_pool\<close> (the class \<open>Pool\<close> that \<open>doMCMC\<close>
  constructs and hands to the sampler) is not among the sources. The definitions of this
  section follow sections 4.2 to 4.4 and 7 of the specification: a work queue of
  (batch index, vector) pairs with a retry counter, one result slot per batch index, a
  roster of live workers, and the two fatal errors.
\<close>

datatype pool_error = EvaluationError nat | PoolExhaustedError

record item =
  item_idx :: nat
  item_vec :: "double list"
  item_retries :: nat

text \<open>
  Modelled from the spec: what the pool does not decide. Workers run concurrently, so
  the order in which evaluations resolve, the worker that ran each, whether an evaluation
  fails (timeout, transport error, engine failure) and whether a dead worker's
  replacement comes up are choices of the environment. One step of a run is the
  resolution of one evaluation; \<open>pick\<close> chooses it among the queued items, so every
  interleaving of the workers is a run for some environment.
\<close>

record env =
  pick :: "nat \<Rightarrow> nat"
  worker :: "nat \<Rightarrow> nat"
  succeeds :: "nat \<Rightarrow> nat \<Rightarrow> nat \<Rightarrow> bool"
  respawns :: "nat \<Rightarrow> nat \<Rightarrow> bool"

text \<open>
  Modelled from the spec: the state of one call of \<open>evaluate\<close>. \<open>attempts\<close> records every
  evaluation attempt as (worker, batch index), in the order of resolution.
\<close>

record pstate =
  queue :: "item list"
  slots :: "double option list"
  live :: "nat list"
  attempts :: "(nat \<times> nat) list"

text \<open>
  Modelled from the spec: the scheduler and the supervisor (4.2, 4.3). While items are
  queued: with no live worker the batch fails with \<open>PoolExhaustedError\<close>. Otherwise one
  evaluation resolves. A success writes the value into the slot of its batch index. A
  failure marks the worker dead and requeues the item with its retry counter incremented;
  a counter that would exceed the bound is the fatal \<open>EvaluationError\<close> of that index,
  which ends the batch at once. The dead worker is replaced in place when the respawn
  succeeds and leaves the rotation when it does not.
\<close>

lemma sum_remove_nth:
  assumes "p < length q"
  shows "sum_list (map g (take p q @ drop (Suc p) q)) + g (q ! p) = (sum_list (map g q) :: nat)"
proof -
  have "q = take p q @ q ! p # drop (Suc p) q" using assms by (rule id_take_nth_drop)
  then have "sum_list (map g q) = sum_list (map g (take p q @ q ! p # drop (Suc p) q))" by simp
  then show ?thesis by (simp add: ac_simps)
qed

lemma length_remove_nth:
  "p < length q \<Longrightarrow> Suc (length (take p q @ drop (Suc p) q)) = length q"
  by auto

function drain :: "env \<Rightarrow> nat \<Rightarrow> (double list \<Rightarrow> double) \<Rightarrow> nat \<Rightarrow> pstate
    \<Rightarrow> pool_error option \<times> pstate" where
  "drain en bound f t st =
     (if queue st = [] then (None, st)
      else if live st = [] then (Some PoolExhaustedError, st)
      else
        let q = queue st;
            p = pick en t mod length q;
            it = q ! p;
            rest = take p q @ drop (Suc p) q;
            w = live st ! (worker en t mod length (live st));
            st1 = st\<lparr>attempts := attempts st @ [(w, item_idx it)]\<rparr>
        in if succeeds en t w (item_idx it)
           then drain en bound f (Suc t)
                  (st1\<lparr>queue := rest, slots := (slots st)[item_idx it := Some (f (item_vec it))]\<rparr>)
           else if bound \<le> item_retries it then (Some (EvaluationError (item_idx it)), st1)
           else drain en bound f (Suc t)
                  (st1\<lparr>queue := rest @ [it\<lparr>item_retries := Suc (item_retries it)\<rparr>],
                       live := (if respawns en t w then live st else remove1 w (live st))\<rparr>))"
  by pat_completeness auto
termination
proof (relation "measure (\<lambda>(en, bound, f, t, st).
          length (queue st) + sum_list (map (\<lambda>it. bound - item_retries it) (queue st)))", goal_cases)
  case 1
  show ?case by simp
next
  case (2 en bound f t st q p it rest w st1)
  then have p: "p < length q" by simp
  have "Suc (length rest) = length q" using length_remove_nth [OF p] 2 by simp
  moreover have "sum_list (map (\<lambda>it. bound - item_retries it) rest)
      \<le> sum_list (map (\<lambda>it. bound - item_retries it) q)"
    using sum_remove_nth [OF p, of "\<lambda>it. bound - item_retries it"] 2 by simp
  ultimately show ?case using 2 by simp
next
  case (3 en bound f t st q p it rest w st1)
  then have p: "p < length q" by simp
  have "Suc (length rest) = length q" using length_remove_nth [OF p] 3 by simp
  moreover have "sum_list (map (\<lambda>it. bound - item_retries it) rest) + (bound - item_retries it)
      = sum_list (map (\<lambda>it. bound - item_retries it) q)"
    using sum_remove_nth [OF p, of "\<lambda>it. bound - item_retries it"] 3 by simp
  moreover have "item_retries it < bound" using 3 by simp
  ultimately show ?case using 3 by simp
qed

text \<open>
  Modelled from the spec: the final assembly (4.2, 5) reads the slots in index order. An
  index without a value has no completed result and is reported as its
  \<open>EvaluationError\<close>.
\<close>

fun assemble :: "nat \<Rightarrow> double option list \<Rightarrow> pool_error + double list" where
  "assemble i [] = Inr []"
| "assemble i (None # rest) = Inl (EvaluationError i)"
| "assemble i (Some x # rest) =
     (case assemble (Suc i) rest of Inl e \<Rightarrow> Inl e | Inr xs \<Rightarrow> Inr (x # xs))"

text \<open>
  Modelled from the spec: the state in which a call of \<open>evaluate\<close> starts, for a pool of
  one worker per host: every vector queued under its batch index with no retry yet, every
  slot empty, every worker live.
\<close>

definition init_state :: "string list \<Rightarrow> double list list \<Rightarrow> pstate" where
  "init_state hosts batch =
     \<lparr>queue = map (\<lambda>i. \<lparr>item_idx = i, item_vec = batch ! i, item_retries = 0\<rparr>) [0..<length batch],
      slots = replicate (length batch) None,
      live = [0..<length hosts],
      attempts = []\<rparr>"

text \<open>
  Modelled from the spec: \<open>evaluate(batch)\<close> of the pool facade (4.4) with retry bound
  \<open>bound\<close>; \<open>f\<close> is the engine's fit statistic of a vector. It returns the attempts made
  and either the fatal error or the results.
\<close>

definition evaluate :: "env \<Rightarrow> nat \<Rightarrow> (double list \<Rightarrow> double) \<Rightarrow> string list \<Rightarrow> double list list
    \<Rightarrow> (nat \<times> nat) list \<times> (pool_error + double list)" where
  "evaluate en bound f hosts batch =
     (case drain en bound f 0 (init_state hosts batch) of
        (Some e, st) \<Rightarrow> (attempts st, Inl e)
      | (None, st) \<Rightarrow> (attempts st, assemble 0 (slots st)))"

text \<open>The number of attempts made on batch index \<open>i\<close> in a record of attempts.\<close>

definition attempts_on :: "(nat \<times> nat) list \<Rightarrow> nat \<Rightarrow> nat" where
  "attempts_on atts i = length (filter (\<lambda>a. snd a = i) atts)"

text \<open>
  Two invariants of a run. \<open>slots_ok\<close>: every queued item carries the vector of its batch
  index, a filled slot holds the value of the vector at its index, and an empty slot
  belongs to a queued item. \<open>retries_ok\<close>: the queued items have distinct batch indices, and
  the retry counter of each is the number of attempts made on it, at most the bound.
\<close>

definition slots_ok :: "(double list \<Rightarrow> double) \<Rightarrow> double list list \<Rightarrow> pstate \<Rightarrow> bool" where
  "slots_ok f batch st =
     (length (slots st) = length batch \<and>
      (\<forall>it \<in> set (queue st). item_idx it < length batch \<and> item_vec it = batch ! item_idx it) \<and>
      (\<forall>i < length batch.
         case slots st ! i of
           None \<Rightarrow> i \<in> item_idx ` set (queue st)
         | Some x \<Rightarrow> x = f (batch ! i)))"

definition retries_ok :: "nat \<Rightarrow> pstate \<Rightarrow> bool" where
  "retries_ok bound st =
     (distinct (map item_idx (queue st)) \<and>
      (\<forall>it \<in> set (queue st).
         attempts_on (attempts st) (item_idx it) = item_retries it \<and> item_retries it \<le> bound))"

text \<open>A fit statistic and a batch for the examples.\<close>

definition ex_fit :: "double list \<Rightarrow> double" where
  "ex_fit v = (case v of [] \<Rightarrow> NaN | x # xs \<Rightarrow> fneg x)"

definition ex_batch :: "double list list" where
  "ex_batch = [[Finite False 1 0], [Finite False 2 0], [Finite False 3 0]]"

text \<open>
  An environment in which the evaluations resolve out of order, on two workers, and the
  second and third attempts fail; and one in which every evaluation fails on a single
  worker that always comes back.
\<close>

definition ex_env :: env where
  "ex_env = \<lparr>pick = (\<lambda>t. t + 1), worker = (\<lambda>t. t),
             succeeds = (\<lambda>t w i. t \<noteq> 1 \<and> t \<noteq> 2), respawns = (\<lambda>t w. True)\<rparr>"

definition failing_env :: env where
  "failing_env = \<lparr>pick = (\<lambda>t. 0), worker = (\<lambda>t. 0),
                  succeeds = (\<lambda>t w i. False), respawns = (\<lambda>t w. True)\<rparr>"

text \<open>An environment in which only batch index 1 fails, and always does.\<close>

definition one_failing_env :: env where
  "one_failing_env = \<lparr>pick = (\<lambda>t. 0), worker = (\<lambda>t. 0),
                      succeeds = (\<lambda>t w i. i \<noteq> 1), respawns = (\<lambda>t w. True)\<rparr>"

section \<open>Example inputs\<close>

definition ex_params :: "param list" where
  "ex_params = [\<lparr>name = ''kT'', unit = ''keV''\<rparr>, \<lparr>name = ''norm'', unit = []\<rparr>]"

definition ex_paridxs :: "int list" where
  "ex_paridxs = [2, 1]"

definition ex_chain :: "double ndarray3" where
  "ex_chain = \<lparr>shape3 = (2, 2, 2), item3 = (\<lambda>w i k. Finite False (4 * w + 2 * i + k) 0)\<rparr>"

definition ex_lnprob :: "double ndarray2" where
  "ex_lnprob = \<lparr>shape2 = (2, 2), item2 = (\<lambda>w i. Finite True (w + i + 1) 0)\<rparr>"

definition ex_fmt :: "double \<Rightarrow> string" where
  "ex_fmt x = (case x of Finite s m e \<Rightarrow> (if s then ''-'' else []) @ str_nat m
                | Infinity s \<Rightarrow> ''inf'' | NaN \<Rightarrow> ''nan'')"



section \<open>Properties of the chain file\<close>

declare str_nat.simps [simp del]

lemma py_index_valid:
  "1 \<le> idx \<Longrightarrow> idx \<le> int (length xs) \<Longrightarrow> py_index xs (idx - 1) = Inr (xs ! nat (idx - 1))"
  by (simp add: py_index_def)

lemma hdr_loop_valid:
  "(\<forall>idx \<in> set idxs. 1 \<le> idx \<and> idx \<le> int (length params)) \<Longrightarrow>
   hdr_loop params idxs acc =
     Inr (acc @ map (\<lambda>idx. str_int idx @ '' '' @ name (params ! nat (idx - 1)) @ '' '' @
              (if unit (params ! nat (idx - 1)) = [] then ''0'' else unit (params ! nat (idx - 1)))) idxs)"
  by (induction idxs arbitrary: acc) (simp_all add: hdr_entry_def py_index_valid)

lemma nth_concat_uniform:
  "(\<forall>xs \<in> set xss. length xs = m) \<Longrightarrow> w < length xss \<Longrightarrow> i < m \<Longrightarrow>
   concat xss ! (w * m + i) = xss ! w ! i"
proof (induction xss arbitrary: w)
  case Nil
  then show ?case by simp
next
  case (Cons xs xss)
  show ?case
  proof (cases w)
    case 0
    with Cons.prems show ?thesis by (simp add: nth_append)
  next
    case (Suc v)
    with Cons.prems have "concat xss ! (v * m + i) = xss ! v ! i"
      using Cons.IH [of v] by simp
    moreover have "length xs = m" using Cons.prems by simp
    ultimately show ?thesis using Suc by (simp add: nth_append)
  qed
qed

lemma length_concat_uniform:
  "(\<forall>xs \<in> set xss. length xs = m) \<Longrightarrow> length (concat xss) = length xss * m"
  by (induction xss) simp_all

lemma data_lines_length:
  "shape3 a = (s0, s1, s2) \<Longrightarrow> length (data_lines fmt_g a) = s0 * s1"
  using length_concat_uniform [of "map (map (data_line fmt_g)) (walkers a)" s1]
  by (auto simp: data_lines_def walkers_def walker_of_def)

lemma data_lines_nth:
  assumes "shape3 a = (s0, s1, s2)" "w < s0" "i < s1"
  shows "data_lines fmt_g a ! (w * s1 + i) = data_line fmt_g (map (item3 a w i) [0..<s2])"
proof -
  let ?xss = "map (map (data_line fmt_g)) (walkers a)"
  have "\<forall>xs \<in> set ?xss. length xs = s1"
    using assms(1) by (auto simp: walkers_def walker_of_def)
  moreover have "w < length ?xss" using assms by (simp add: walkers_def)
  ultimately have "concat ?xss ! (w * s1 + i) = ?xss ! w ! i"
    using assms(3) by (rule nth_concat_uniform)
  then show ?thesis
    using assms by (simp add: data_lines_def walkers_def walker_of_def line_of_def)
qed

lemma of_char_digit: "d < 10 \<Longrightarrow> of_char (digit_char d) = (48 + d :: nat)"
  by (simp add: digit_char_def)

lemma digit_char_neq: "d < 10 \<Longrightarrow> digit_char d \<noteq> CHR 0x0A"
proof
  assume d: "d < 10" and e: "digit_char d = CHR 0x0A"
  have "of_char (digit_char d) = (48 + d :: nat)" using d by (rule of_char_digit)
  with e show False by simp
qed

lemma str_nat_no_newline: "CHR 0x0A \<notin> set (str_nat n)"
proof (induction n rule: str_nat.induct)
  case (1 n)
  show ?case
  proof (cases "n < 10")
    case True
    then show ?thesis using digit_char_neq [of n] by (subst str_nat.simps) auto
  next
    case False
    then have "CHR 0x0A \<notin> set (str_nat (n div 10))" using "1" by simp
    moreover have "digit_char (n mod 10) \<noteq> CHR 0x0A" by (rule digit_char_neq) simp
    ultimately show ?thesis using False by (subst str_nat.simps) auto
  qed
qed

lemma str_int_no_newline: "CHR 0x0A \<notin> set (str_int i)"
  by (simp add: str_int_def str_nat_no_newline)

lemma set_join: "set (join sep xs) \<subseteq> set sep \<union> \<Union> (set ` set xs)"
  by (induction sep xs rule: join.induct) auto

lemma count_join:
  "(\<forall>x \<in> set xs. t \<notin> set x) \<Longrightarrow> xs \<noteq> [] \<Longrightarrow> count_list (join [t] xs) t + 1 = length xs"
  by (induction "[t]" xs rule: join.induct) (simp_all add: count_list_0_iff)

lemma writeXSpecChain_hdr:
  assumes "\<forall>idx \<in> set paridxs. 1 \<le> idx \<and> idx \<le> int (length params)"
  shows "take 4 (fst (writeXSpecChain fmt_g chain lnprob params paridxs)) =
     [''! Markov chain file generated by xspec \"chain\" command.'' @ [CHR 0x0A],
      ''!    Do not modify, else file may not reload properly.'' @ [CHR 0x0A],
      ''!Length: '' @ str_int (int (fst (shape3 chain) * fst (snd (shape3 chain)))) @ ''  Width: ''
         @ str_int (int (snd (snd (shape3 chain)) + 1)) @ [CHR 0x0A],
      ''!'' @ join '' '' (map (\<lambda>idx. str_int idx @ '' '' @ name (params ! nat (idx - 1)) @ '' '' @
              (if unit (params ! nat (idx - 1)) = [] then ''0'' else unit (params ! nat (idx - 1)))) paridxs
              @ [''Chi-Squared'']) @ [CHR 0x0A]]"
  using hdr_loop_valid [OF assms, of "[]"]
  by (simp add: writeXSpecChain_def Let_def split: sum.splits)

lemma writeXSpecChain_ok:
  assumes "\<forall>idx \<in> set paridxs. 1 \<le> idx \<and> idx \<le> int (length params)"
    and "shape3 chain = (s0, s1, s2)" and "shape2 lnprob = (s0, s1)"
  shows "\<exists>a. dstack chain (expand_dims (neg2 lnprob)) = Inr a \<and> shape3 a = (s0, s1, s2 + 1) \<and>
     (\<forall>w i. map (item3 a w i) [0..<s2 + 1] = map (item3 chain w i) [0..<s2] @ [fneg (item2 lnprob w i)]) \<and>
     writeXSpecChain fmt_g chain lnprob params paridxs =
       (take 4 (fst (writeXSpecChain fmt_g chain lnprob params paridxs)) @ data_lines fmt_g a, None)"
  using hdr_loop_valid [OF assms(1), of "[]"] assms(2,3)
  by (simp add: writeXSpecChain_def Let_def dstack_def expand_dims_def neg2_def)

lemma join_no_newline:
  "CHR 0x0A \<notin> set sep \<Longrightarrow> (\<forall>x \<in> set xs. CHR 0x0A \<notin> set x) \<Longrightarrow> CHR 0x0A \<notin> set (join sep xs)"
  using set_join [of sep xs] by auto

lemma count_data_line:
  assumes "\<forall>x. CHR 0x09 \<notin> set (fmt_g x)" and "line \<noteq> []"
  shows "count_list (data_line fmt_g line) (CHR 0x09) + 1 = length line"
proof -
  have "count_list (join [CHR 0x09] (map fmt_g line)) (CHR 0x09) + 1 = length (map fmt_g line)"
    using assms by (intro count_join) auto
  then show ?thesis by (simp add: data_line_def)
qed

lemma ex_valid: "\<forall>idx \<in> set ex_paridxs. 1 \<le> idx \<and> idx \<le> int (length ex_params)"
  by (simp add: ex_paridxs_def ex_params_def)

lemma str_nat_chars: "c \<in> set (str_nat n) \<Longrightarrow> 48 \<le> (of_char c :: nat)"
proof (induction n rule: str_nat.induct)
  case (1 n)
  show ?case
  proof (cases "n < 10")
    case True
    with "1.prems" have "c = digit_char n" by (subst (asm) str_nat.simps) simp
    then show ?thesis using True by (simp add: of_char_digit)
  next
    case False
    with "1.prems" have "c \<in> set (str_nat (n div 10)) \<or> c = digit_char (n mod 10)"
      by (subst (asm) str_nat.simps) auto
    then show ?thesis
    proof
      assume "c \<in> set (str_nat (n div 10))"
      with False "1.IH" show ?thesis by simp
    next
      assume "c = digit_char (n mod 10)"
      then show ?thesis by (simp add: of_char_digit)
    qed
  qed
qed

lemma ex_fmt_no_tab: "\<forall>x. CHR 0x09 \<notin> set (ex_fmt x)"
proof
  fix x
  have "CHR 0x09 \<notin> set (str_nat m)" for m
    using str_nat_chars [of "CHR 0x09" m] by auto
  then show "CHR 0x09 \<notin> set (ex_fmt x)"
    by (cases x) (simp_all add: ex_fmt_def)
qed

text \<open>
  Claim C2. When the catalogue indices are valid and \<open>lnprob\<close> has the first two
  dimensions of \<open>chain\<close>, the function ends without an exception, and after the four
  header writes come exactly \<open>s0 * s1\<close> data lines: line number \<open>w * s1 + i\<close> belongs to
  walker \<open>w\<close> and iteration \<open>i\<close>, so all iterations of walker 0 come first, then those
  of walker 1, and so on. The line holds the \<open>s2\<close> parameter values of that iteration,
  then the negated log-likelihood, each rendered by \<open>%g\<close>, separated by tabs and ended
  by a newline.
\<close>

theorem chain_data_rows:
  assumes "\<forall>idx \<in> set paridxs. 1 \<le> idx \<and> idx \<le> int (length params)"
    and "shape3 chain = (s0, s1, s2)" and "shape2 lnprob = (s0, s1)"
  shows "snd (writeXSpecChain fmt_g chain lnprob params paridxs) = None \<and>
     length (fst (writeXSpecChain fmt_g chain lnprob params paridxs)) = 4 + s0 * s1 \<and>
     (\<forall>w < s0. \<forall>i < s1.
        fst (writeXSpecChain fmt_g chain lnprob params paridxs) ! (4 + w * s1 + i) =
          join [CHR 0x09]
            (map fmt_g (map (item3 chain w i) [0..<s2] @ [fneg (item2 lnprob w i)])) @ [CHR 0x0A])"
proof -
  let ?W = "writeXSpecChain fmt_g chain lnprob params paridxs"
  obtain a where a: "shape3 a = (s0, s1, s2 + 1)"
    and row: "\<And>w i. map (item3 a w i) [0..<s2 + 1] =
                map (item3 chain w i) [0..<s2] @ [fneg (item2 lnprob w i)]"
    and W: "?W = (take 4 (fst ?W) @ data_lines fmt_g a, None)"
    using writeXSpecChain_ok [OF assms] by blast
  have len4: "length (take 4 (fst ?W)) = 4"
    using writeXSpecChain_hdr [OF assms(1), of fmt_g chain lnprob] by simp
  have fstW: "fst ?W = take 4 (fst ?W) @ data_lines fmt_g a"
    using W by (metis fst_conv)
  have "snd ?W = None" using W by (metis snd_conv)
  moreover have "length (fst ?W) = 4 + s0 * s1"
    using fstW len4 data_lines_length [OF a, of fmt_g] by (metis length_append)
  moreover have "fst ?W ! (4 + w * s1 + i) =
      join [CHR 0x09] (map fmt_g (map (item3 chain w i) [0..<s2] @ [fneg (item2 lnprob w i)]))
        @ [CHR 0x0A]" if "w < s0" "i < s1" for w i
  proof -
    have "fst ?W ! (4 + w * s1 + i) = data_lines fmt_g a ! (w * s1 + i)"
      using fstW len4 by (metis add.assoc nth_append_length_plus)
    also have "\<dots> = data_line fmt_g (map (item3 a w i) [0..<s2 + 1])"
      using a that by (rule data_lines_nth)
    finally show ?thesis by (simp only: row data_line_def)
  qed
  ultimately show ?thesis by blast
qed

theorem chain_data_rows_witness:
  "snd (writeXSpecChain ex_fmt ex_chain ex_lnprob ex_params ex_paridxs) = None \<and>
   length (fst (writeXSpecChain ex_fmt ex_chain ex_lnprob ex_params ex_paridxs)) = 8 \<and>
   fst (writeXSpecChain ex_fmt ex_chain ex_lnprob ex_params ex_paridxs) ! 6 =
     ''4'' @ [CHR 0x09] @ ''5'' @ [CHR 0x09] @ ''2'' @ [CHR 0x0A]"
proof -
  have h2: "shape3 ex_chain = (2, 2, 2)" by (simp add: ex_chain_def)
  have h3: "shape2 ex_lnprob = (2, 2)" by (simp add: ex_lnprob_def)
  note t = chain_data_rows [OF ex_valid h2 h3, of ex_fmt]
  have "fst (writeXSpecChain ex_fmt ex_chain ex_lnprob ex_params ex_paridxs) ! (4 + 1 * 2 + 0) =
     join [CHR 0x09] (map ex_fmt (map (item3 ex_chain 1 0) [0..<2] @ [fneg (item2 ex_lnprob 1 0)]))
       @ [CHR 0x0A]"
    by (rule t [THEN conjunct2, THEN conjunct2, rule_format]) simp_all
  moreover have "join [CHR 0x09] (map ex_fmt (map (item3 ex_chain 1 0) [0..<2] @ [fneg (item2 ex_lnprob 1 0)]))
       @ [CHR 0x0A] = ''4'' @ [CHR 0x09] @ ''5'' @ [CHR 0x09] @ ''2'' @ [CHR 0x0A]"
    by code_simp
  ultimately show ?thesis using t by simp
qed

text \<open>
  Claim C3. With valid catalogue indices the writes to the file are, in this order: the
  two fixed comment lines, the \<open>!Length\<close> line, one header line, and then the data lines
  and nothing else (no data line when the shapes of \<open>chain\<close> and \<open>lnprob\<close> do not fit). The
  header line is \<open>!\<close>, then for every element \<open>idx\<close> of \<open>paridxs\<close>, in order, the entry
  \<open>idx name unit\<close> of catalogue entry \<open>params[idx-1]\<close> (an empty unit written \<open>0\<close>), then
  the column \<open>Chi-Squared\<close>, all separated by single spaces and ended by a newline. When
  no name or unit holds a newline, that final newline is the only one of the header, so
  the header is one line.
\<close>

theorem chain_header_line:
  assumes "\<forall>idx \<in> set paridxs. 1 \<le> idx \<and> idx \<le> int (length params)"
  shows "fst (writeXSpecChain fmt_g chain lnprob params paridxs) =
       [''! Markov chain file generated by xspec \"chain\" command.'' @ [CHR 0x0A],
        ''!    Do not modify, else file may not reload properly.'' @ [CHR 0x0A],
        ''!Length: '' @ str_int (int (fst (shape3 chain) * fst (snd (shape3 chain))))
          @ ''  Width: '' @ str_int (int (snd (snd (shape3 chain)) + 1)) @ [CHR 0x0A],
        ''!'' @ join '' ''
          (map (\<lambda>idx. str_int idx @ '' '' @ name (params ! nat (idx - 1)) @ '' '' @
                  (if unit (params ! nat (idx - 1)) = [] then ''0''
                   else unit (params ! nat (idx - 1)))) paridxs
           @ [''Chi-Squared'']) @ [CHR 0x0A]]
       @ (case dstack chain (expand_dims (neg2 lnprob)) of
            Inl e \<Rightarrow> [] | Inr a \<Rightarrow> data_lines fmt_g a) \<and>
     ((\<forall>p \<in> set params. CHR 0x0A \<notin> set (name p) \<and> CHR 0x0A \<notin> set (unit p)) \<longrightarrow>
        CHR 0x0A \<notin> set (''!'' @ join '' ''
          (map (\<lambda>idx. str_int idx @ '' '' @ name (params ! nat (idx - 1)) @ '' '' @
                  (if unit (params ! nat (idx - 1)) = [] then ''0''
                   else unit (params ! nat (idx - 1)))) paridxs
           @ [''Chi-Squared''])))"
proof -
  let ?W = "writeXSpecChain fmt_g chain lnprob params paridxs"
  let ?e = "\<lambda>idx. str_int idx @ '' '' @ name (params ! nat (idx - 1)) @ '' '' @
              (if unit (params ! nat (idx - 1)) = [] then ''0'' else unit (params ! nat (idx - 1)))"
  have loop: "hdr_loop params paridxs [] = Inr (map ?e paridxs)"
    using hdr_loop_valid [OF assms, of "[]"] by simp
  have whole: "fst ?W =
       [''! Markov chain file generated by xspec \"chain\" command.'' @ [CHR 0x0A],
        ''!    Do not modify, else file may not reload properly.'' @ [CHR 0x0A],
        ''!Length: '' @ str_int (int (fst (shape3 chain) * fst (snd (shape3 chain))))
          @ ''  Width: '' @ str_int (int (snd (snd (shape3 chain)) + 1)) @ [CHR 0x0A],
        ''!'' @ join '' '' (map ?e paridxs @ [''Chi-Squared'']) @ [CHR 0x0A]]
       @ (case dstack chain (expand_dims (neg2 lnprob)) of
            Inl e \<Rightarrow> [] | Inr a \<Rightarrow> data_lines fmt_g a)"
    using loop by (cases "dstack chain (expand_dims (neg2 lnprob))")
      (simp_all add: writeXSpecChain_def Let_def)
  have nl: "CHR 0x0A \<notin> set (''!'' @ join '' '' (map ?e paridxs @ [''Chi-Squared'']))"
    if clean: "\<forall>p \<in> set params. CHR 0x0A \<notin> set (name p) \<and> CHR 0x0A \<notin> set (unit p)"
  proof -
    have "CHR 0x0A \<notin> set (?e idx)" if "idx \<in> set paridxs" for idx
    proof -
      have "nat (idx - 1) < length params" using assms that by auto
      then have "params ! nat (idx - 1) \<in> set params" by simp
      with clean show ?thesis by (simp add: str_int_no_newline)
    qed
    then have "\<forall>x \<in> set (map ?e paridxs @ [''Chi-Squared'']). CHR 0x0A \<notin> set x"
      by auto
    then have "CHR 0x0A \<notin> set (join '' '' (map ?e paridxs @ [''Chi-Squared'']))"
      by (intro join_no_newline) simp_all
    then show ?thesis by simp
  qed
  show ?thesis
    apply (rule conjI)
     apply (rule whole)
    apply (rule impI)
    apply (erule nl)
    done
qed

theorem chain_header_line_witness:
  "fst (writeXSpecChain ex_fmt ex_chain ex_lnprob ex_params ex_paridxs) =
     [''! Markov chain file generated by xspec \"chain\" command.'' @ [CHR 0x0A],
      ''!    Do not modify, else file may not reload properly.'' @ [CHR 0x0A],
      ''!Length: 4  Width: 3'' @ [CHR 0x0A],
      ''!2 norm 0 1 kT keV Chi-Squared'' @ [CHR 0x0A],
      ''0'' @ [CHR 0x09] @ ''1'' @ [CHR 0x09] @ ''1'' @ [CHR 0x0A],
      ''2'' @ [CHR 0x09] @ ''3'' @ [CHR 0x09] @ ''2'' @ [CHR 0x0A],
      ''4'' @ [CHR 0x09] @ ''5'' @ [CHR 0x09] @ ''2'' @ [CHR 0x0A],
      ''6'' @ [CHR 0x09] @ ''7'' @ [CHR 0x09] @ ''3'' @ [CHR 0x0A]] \<and>
   CHR 0x0A \<notin> set ''!2 norm 0 1 kT keV Chi-Squared''"
proof -
  have clean: "\<forall>p \<in> set ex_params. CHR 0x0A \<notin> set (name p) \<and> CHR 0x0A \<notin> set (unit p)"
    by (simp add: ex_params_def)
  have len: "''!Length: '' @ str_int (int (fst (shape3 ex_chain) * fst (snd (shape3 ex_chain))))
          @ ''  Width: '' @ str_int (int (snd (snd (shape3 ex_chain)) + 1)) @ [CHR 0x0A]
        = ''!Length: 4  Width: 3'' @ [CHR 0x0A]" by code_simp
  have hdr: "''!'' @ join '' ''
          (map (\<lambda>idx. str_int idx @ '' '' @ name (ex_params ! nat (idx - 1)) @ '' '' @
                  (if unit (ex_params ! nat (idx - 1)) = [] then ''0''
                   else unit (ex_params ! nat (idx - 1)))) ex_paridxs
           @ [''Chi-Squared'']) = ''!2 norm 0 1 kT keV Chi-Squared''" by code_simp
  have rows: "(case dstack ex_chain (expand_dims (neg2 ex_lnprob)) of
            Inl e \<Rightarrow> [] | Inr a \<Rightarrow> data_lines ex_fmt a) =
     [''0'' @ [CHR 0x09] @ ''1'' @ [CHR 0x09] @ ''1'' @ [CHR 0x0A],
      ''2'' @ [CHR 0x09] @ ''3'' @ [CHR 0x09] @ ''2'' @ [CHR 0x0A],
      ''4'' @ [CHR 0x09] @ ''5'' @ [CHR 0x09] @ ''2'' @ [CHR 0x0A],
      ''6'' @ [CHR 0x09] @ ''7'' @ [CHR 0x09] @ ''3'' @ [CHR 0x0A]]" by code_simp
  note t = chain_header_line [OF ex_valid, of ex_fmt ex_chain ex_lnprob]
  have "fst (writeXSpecChain ex_fmt ex_chain ex_lnprob ex_params ex_paridxs) =
     [''! Markov chain file generated by xspec \"chain\" command.'' @ [CHR 0x0A],
      ''!    Do not modify, else file may not reload properly.'' @ [CHR 0x0A],
      ''!Length: 4  Width: 3'' @ [CHR 0x0A],
      ''!2 norm 0 1 kT keV Chi-Squared'' @ [CHR 0x0A]] @
     [''0'' @ [CHR 0x09] @ ''1'' @ [CHR 0x09] @ ''1'' @ [CHR 0x0A],
      ''2'' @ [CHR 0x09] @ ''3'' @ [CHR 0x09] @ ''2'' @ [CHR 0x0A],
      ''4'' @ [CHR 0x09] @ ''5'' @ [CHR 0x09] @ ''2'' @ [CHR 0x0A],
      ''6'' @ [CHR 0x09] @ ''7'' @ [CHR 0x09] @ ''3'' @ [CHR 0x0A]]"
    using t [THEN conjunct1] unfolding len rows hdr [symmetric] by (simp only: append_assoc)
  moreover have "CHR 0x0A \<notin> set ''!2 norm 0 1 kT keV Chi-Squared''"
    using t [THEN conjunct2] clean unfolding hdr by blast
  ultimately show ?thesis by simp
qed

text \<open>
  Claim C4. The entries of the header line follow \<open>paridxs\<close> in order: entry \<open>k\<close> shows
  \<open>paridxs[k]\<close> with the name and the unit of \<open>params[paridxs[k] - 1]\<close>.
\<close>

theorem chain_header_order:
  assumes "\<forall>idx \<in> set paridxs. 1 \<le> idx \<and> idx \<le> int (length params)"
  shows "fst (writeXSpecChain fmt_g chain lnprob params paridxs) ! 3 =
     ''!'' @ join '' ''
       (map (\<lambda>idx. str_int idx @ '' '' @ name (params ! nat (idx - 1)) @ '' '' @
              (if unit (params ! nat (idx - 1)) = [] then ''0'' else unit (params ! nat (idx - 1))))
          paridxs @ [''Chi-Squared'']) @ [CHR 0x0A]"
proof -
  let ?W = "writeXSpecChain fmt_g chain lnprob params paridxs"
  have "fst ?W ! 3 = take 4 (fst ?W) ! 3" by simp
  then show ?thesis
    by (simp only: writeXSpecChain_hdr [OF assms]) simp
qed

theorem chain_header_order_witness:
  "fst (writeXSpecChain ex_fmt ex_chain ex_lnprob ex_params ex_paridxs) ! 3 =
     ''!2 norm 0 1 kT keV Chi-Squared'' @ [CHR 0x0A]"
proof -
  have "''!'' @ join '' ''
       (map (\<lambda>idx. str_int idx @ '' '' @ name (ex_params ! nat (idx - 1)) @ '' '' @
              (if unit (ex_params ! nat (idx - 1)) = [] then ''0'' else unit (ex_params ! nat (idx - 1))))
          ex_paridxs @ [''Chi-Squared'']) @ [CHR 0x0A] = ''!2 norm 0 1 kT keV Chi-Squared'' @ [CHR 0x0A]"
    by code_simp
  then show ?thesis
    using chain_header_order [OF ex_valid, of ex_fmt ex_chain ex_lnprob] by simp
qed

text \<open>
  Claim C8. The line \<open>!Length: L  Width: W\<close> agrees with the rest of the file: \<open>L\<close> is
  the number of data lines, which is \<open>shape[0] * shape[1]\<close>, and \<open>W\<close> is
  \<open>shape[2] + 1\<close>, the number of tab-separated fields of every data line (\<open>%g\<close> never
  writes a tab itself).
\<close>

theorem chain_length_width:
  assumes "\<forall>idx \<in> set paridxs. 1 \<le> idx \<and> idx \<le> int (length params)"
    and "shape3 chain = (s0, s1, s2)" and "shape2 lnprob = (s0, s1)"
    and "\<forall>x. CHR 0x09 \<notin> set (fmt_g x)"
  shows "\<exists>L W.
     fst (writeXSpecChain fmt_g chain lnprob params paridxs) ! 2 =
       ''!Length: '' @ str_int (int L) @ ''  Width: '' @ str_int (int W) @ [CHR 0x0A] \<and>
     L = length (drop 4 (fst (writeXSpecChain fmt_g chain lnprob params paridxs))) \<and>
     L = s0 * s1 \<and> W = s2 + 1 \<and>
     (\<forall>r \<in> set (drop 4 (fst (writeXSpecChain fmt_g chain lnprob params paridxs))).
        count_list r (CHR 0x09) + 1 = W)"
proof -
  let ?W = "writeXSpecChain fmt_g chain lnprob params paridxs"
  obtain a where a: "shape3 a = (s0, s1, s2 + 1)"
    and W: "?W = (take 4 (fst ?W) @ data_lines fmt_g a, None)"
    using writeXSpecChain_ok [OF assms(1-3)] by blast
  have len4: "length (take 4 (fst ?W)) = 4"
    using writeXSpecChain_hdr [OF assms(1), of fmt_g chain lnprob] by simp
  have fstW: "fst ?W = take 4 (fst ?W) @ data_lines fmt_g a"
    using W by (metis fst_conv)
  have rows: "drop 4 (fst ?W) = data_lines fmt_g a"
    using fstW len4 by (metis append_eq_conv_conj)
  have "fst ?W ! 2 = take 4 (fst ?W) ! 2" by simp
  then have l3: "fst ?W ! 2 = ''!Length: '' @ str_int (int (s0 * s1)) @ ''  Width: ''
        @ str_int (int (s2 + 1)) @ [CHR 0x0A]"
    by (simp only: writeXSpecChain_hdr [OF assms(1)]) (simp add: assms(2))
  have L: "length (drop 4 (fst ?W)) = s0 * s1"
    using rows data_lines_length [OF a, of fmt_g] by simp
  have "count_list r (CHR 0x09) + 1 = s2 + 1" if "r \<in> set (data_lines fmt_g a)" for r
  proof -
    from that obtain w i where "r = data_line fmt_g (line_of a w i)"
      by (auto simp: data_lines_def walkers_def walker_of_def)
    moreover have "length (line_of a w i) = s2 + 1" using a by (simp add: line_of_def)
    moreover from this have "line_of a w i \<noteq> []" by auto
    ultimately show ?thesis using count_data_line [OF assms(4)] by metis
  qed
  then have cnt: "\<forall>r \<in> set (drop 4 (fst ?W)). count_list r (CHR 0x09) + 1 = s2 + 1"
    using rows by simp
  show ?thesis
    apply (rule exI [of _ "s0 * s1"], rule exI [of _ "s2 + 1"])
    apply (intro conjI)
        apply (rule l3)
       apply (rule L [symmetric])
      apply (rule refl)
     apply (rule refl)
    apply (rule cnt)
    done
qed

theorem chain_length_width_witness:
  "fst (writeXSpecChain ex_fmt ex_chain ex_lnprob ex_params ex_paridxs) ! 2 =
       ''!Length: 4  Width: 3'' @ [CHR 0x0A] \<and>
   length (drop 4 (fst (writeXSpecChain ex_fmt ex_chain ex_lnprob ex_params ex_paridxs))) = 4 \<and>
   count_list (fst (writeXSpecChain ex_fmt ex_chain ex_lnprob ex_params ex_paridxs) ! 4) (CHR 0x09) + 1 = 3 \<and>
   count_list (fst (writeXSpecChain ex_fmt ex_chain ex_lnprob ex_params ex_paridxs) ! 7) (CHR 0x09) + 1 = 3"
proof -
  let ?ws = "fst (writeXSpecChain ex_fmt ex_chain ex_lnprob ex_params ex_paridxs)"
  have h2: "shape3 ex_chain = (2, 2, 2)" by (simp add: ex_chain_def)
  have h3: "shape2 ex_lnprob = (2, 2)" by (simp add: ex_lnprob_def)
  have s: "str_int (int (2 * 2)) = ''4''" "str_int (int (2 + 1)) = ''3''" by code_simp+
  from chain_length_width [OF ex_valid h2 h3 ex_fmt_no_tab]
  have l: "?ws ! 2 = ''!Length: 4  Width: 3'' @ [CHR 0x0A]"
    and n: "length (drop 4 ?ws) = 4"
    and c: "\<forall>r \<in> set (drop 4 ?ws). count_list r (CHR 0x09) + 1 = 3"
    using s by auto
  have "drop 4 ?ws ! 0 \<in> set (drop 4 ?ws)" "drop 4 ?ws ! 3 \<in> set (drop 4 ?ws)"
    using n by (simp_all only: nth_mem)
  moreover have "drop 4 ?ws ! 0 = ?ws ! 4" "drop 4 ?ws ! 3 = ?ws ! 7"
    using n by simp_all
  ultimately have "count_list (?ws ! 4) (CHR 0x09) + 1 = 3" "count_list (?ws ! 7) (CHR 0x09) + 1 = 3"
    using c by auto
  with l n show ?thesis by blast
qed

text \<open>
  Claim C10. In the header entry of a parameter, an empty unit is written as \<open>0\<close> and a
  non-empty unit is written as it is.
\<close>

theorem chain_unit_zero:
  assumes "\<forall>idx \<in> set paridxs. 1 \<le> idx \<and> idx \<le> int (length params)"
    and "k < length paridxs"
  shows "\<exists>entries.
     hdr_loop params paridxs [] = Inr entries \<and>
     fst (writeXSpecChain fmt_g chain lnprob params paridxs) ! 3 =
       ''!'' @ join '' '' (entries @ [''Chi-Squared'']) @ [CHR 0x0A] \<and>
     length entries = length paridxs \<and>
     entries ! k = str_int (paridxs ! k) @ '' '' @ name (params ! nat (paridxs ! k - 1)) @ '' '' @
       (if unit (params ! nat (paridxs ! k - 1)) = [] then ''0''
        else unit (params ! nat (paridxs ! k - 1)))"
proof -
  let ?W = "writeXSpecChain fmt_g chain lnprob params paridxs"
  let ?e = "\<lambda>idx. str_int idx @ '' '' @ name (params ! nat (idx - 1)) @ '' '' @
              (if unit (params ! nat (idx - 1)) = [] then ''0'' else unit (params ! nat (idx - 1)))"
  have "hdr_loop params paridxs [] = Inr (map ?e paridxs)"
    using hdr_loop_valid [OF assms(1), of "[]"] by simp
  moreover have "fst ?W ! 3 = take 4 (fst ?W) ! 3" by simp
  then have "fst ?W ! 3 = ''!'' @ join '' '' (map ?e paridxs @ [''Chi-Squared'']) @ [CHR 0x0A]"
    by (simp only: writeXSpecChain_hdr [OF assms(1)]) simp
  moreover have "length (map ?e paridxs) = length paridxs" by simp
  moreover have "map ?e paridxs ! k = ?e (paridxs ! k)" using assms(2) by simp
  ultimately show ?thesis
    by (rule_tac x = "map ?e paridxs" in exI) simp
qed

theorem chain_unit_zero_witness:
  "(\<exists>entries.
     fst (writeXSpecChain ex_fmt ex_chain ex_lnprob ex_params ex_paridxs) ! 3 =
       ''!'' @ join '' '' (entries @ [''Chi-Squared'']) @ [CHR 0x0A] \<and>
     entries ! 0 = ''2 norm 0'') \<and>
   (\<exists>entries.
     fst (writeXSpecChain ex_fmt ex_chain ex_lnprob ex_params ex_paridxs) ! 3 =
       ''!'' @ join '' '' (entries @ [''Chi-Squared'']) @ [CHR 0x0A] \<and>
     entries ! 1 = ''1 kT keV'')"
proof -
  have k0: "0 < length ex_paridxs" and k1: "1 < length ex_paridxs"
    by (simp_all add: ex_paridxs_def)
  have e0: "str_int (ex_paridxs ! 0) @ '' '' @ name (ex_params ! nat (ex_paridxs ! 0 - 1)) @ '' '' @
       (if unit (ex_params ! nat (ex_paridxs ! 0 - 1)) = [] then ''0''
        else unit (ex_params ! nat (ex_paridxs ! 0 - 1))) = ''2 norm 0''" by code_simp
  have e1: "str_int (ex_paridxs ! 1) @ '' '' @ name (ex_params ! nat (ex_paridxs ! 1 - 1)) @ '' '' @
       (if unit (ex_params ! nat (ex_paridxs ! 1 - 1)) = [] then ''0''
        else unit (ex_params ! nat (ex_paridxs ! 1 - 1))) = ''1 kT keV''" by code_simp
  from chain_unit_zero [OF ex_valid k0, of ex_fmt ex_chain ex_lnprob] e0
  have "\<exists>entries.
     fst (writeXSpecChain ex_fmt ex_chain ex_lnprob ex_params ex_paridxs) ! 3 =
       ''!'' @ join '' '' (entries @ [''Chi-Squared'']) @ [CHR 0x0A] \<and>
     entries ! 0 = ''2 norm 0''" by metis
  moreover from chain_unit_zero [OF ex_valid k1, of ex_fmt ex_chain ex_lnprob] e1
  have "\<exists>entries.
     fst (writeXSpecChain ex_fmt ex_chain ex_lnprob ex_params ex_paridxs) ! 3 =
       ''!'' @ join '' '' (entries @ [''Chi-Squared'']) @ [CHR 0x0A] \<and>
     entries ! 1 = ''1 kT keV''" by metis
  ultimately show ?thesis by (rule conjI)
qed


section \<open>Properties of the list of systems\<close>

lemma split_acc_space:
  "is_space c \<Longrightarrow> split_acc (xs @ c # ys) cur = split_acc xs cur @ split_acc ys []"
  by (induction xs arbitrary: cur) simp_all

lemma split_acc_token:
  "(\<forall>c \<in> set t. \<not> is_space c) \<Longrightarrow> split_acc (t @ rest) cur = split_acc rest (cur @ t)"
  by (induction t arbitrary: cur) simp_all

lemma split_acc_tokens:
  "(\<forall>c \<in> set cur. \<not> is_space c) \<Longrightarrow>
   \<forall>t \<in> set (split_acc s cur). t \<noteq> [] \<and> (\<forall>c \<in> set t. \<not> is_space c)"
proof (induction s arbitrary: cur)
  case Nil
  then show ?case by simp
next
  case (Cons a s)
  show ?case
  proof (cases "is_space a")
    case True
    have "\<forall>t \<in> set (split_acc s []). t \<noteq> [] \<and> (\<forall>c \<in> set t. \<not> is_space c)"
      by (rule Cons.IH) simp
    with True Cons.prems show ?thesis by simp
  next
    case False
    have "\<forall>t \<in> set (split_acc s (cur @ [a])). t \<noteq> [] \<and> (\<forall>c \<in> set t. \<not> is_space c)"
      using False Cons.prems by (intro Cons.IH) simp
    with False show ?thesis by simp
  qed
qed

lemma split_acc_all_space:
  "(\<forall>c \<in> set s. is_space c) \<Longrightarrow> split_acc s [] = []"
  by (induction s) simp_all

lemma split_acc_nonempty_cur:
  "cur \<noteq> [] \<Longrightarrow> split_acc s cur \<noteq> []"
  by (induction s arbitrary: cur) simp_all

lemma split_acc_some:
  "(\<exists>c \<in> set s. \<not> is_space c) \<Longrightarrow> split_acc s cur \<noteq> []"
  by (induction s arbitrary: cur) (auto simp: split_acc_nonempty_cur)

text \<open>
  Claim C5, as amended. Without \<open>--systems\<close> the host list is \<open>['localhost']\<close>. A value
  with at least one character that is not whitespace gives at least one host, and the
  hosts are its whitespace-separated tokens: a string without whitespace is one token,
  the tokens of \<open>a + c + b\<close> for a whitespace character \<open>c\<close> are those of \<open>a\<close> followed
  by those of \<open>b\<close>, and no token is empty or holds whitespace. An empty value, or one of
  whitespace only, gives the empty host list: no default is put in its place.
\<close>

theorem systems_split:
  "main_systems None = [''localhost''] \<and>
   (\<forall>s. (\<exists>c \<in> set s. \<not> is_space c) \<longrightarrow> main_systems (Some s) \<noteq> []) \<and>
   (\<forall>s. (\<forall>c \<in> set s. is_space c) \<longrightarrow> main_systems (Some s) = []) \<and>
   (\<forall>t. t \<noteq> [] \<and> (\<forall>c \<in> set t. \<not> is_space c) \<longrightarrow> main_systems (Some t) = [t]) \<and>
   (\<forall>a c b. is_space c \<longrightarrow>
      main_systems (Some (a @ c # b)) = main_systems (Some a) @ main_systems (Some b)) \<and>
   (\<forall>s. \<forall>t \<in> set (main_systems (Some s)). t \<noteq> [] \<and> (\<forall>c \<in> set t. \<not> is_space c))"
proof (intro conjI allI impI ballI)
  show "main_systems None = [''localhost'']"
    by (simp add: main_systems_def args_systems_def split_def is_space_def)
next
  fix s assume "\<exists>c \<in> set s. \<not> is_space c"
  then show "main_systems (Some s) \<noteq> []"
    by (simp add: main_systems_def args_systems_def split_def split_acc_some)
next
  fix s assume "\<forall>c \<in> set s. is_space c"
  then show "main_systems (Some s) = []"
    by (simp add: main_systems_def args_systems_def split_def split_acc_all_space)
next
  fix t :: string assume t: "t \<noteq> [] \<and> (\<forall>c \<in> set t. \<not> is_space c)"
  then have "split_acc (t @ []) [] = split_acc [] ([] @ t)" by (intro split_acc_token) simp
  with t show "main_systems (Some t) = [t]"
    by (simp add: main_systems_def args_systems_def split_def)
next
  fix a c b assume "is_space c"
  then show "main_systems (Some (a @ c # b)) = main_systems (Some a) @ main_systems (Some b)"
    by (simp add: main_systems_def args_systems_def split_def split_acc_space)
next
  fix s t assume "t \<in> set (main_systems (Some s))"
  then have "t \<in> set (split_acc s [])" by (simp add: main_systems_def args_systems_def split_def)
  then have r: "t \<noteq> [] \<and> (\<forall>c \<in> set t. \<not> is_space c)"
    using split_acc_tokens [of "[]" s] by simp
  from r show "t \<noteq> []" by simp
  fix c assume "c \<in> set t" with r show "\<not> is_space c" by simp
qed

theorem systems_split_witness:
  "main_systems None = [''localhost''] \<and>
   main_systems (Some ''node1  node2'') = [''node1'', ''node2''] \<and>
   main_systems (Some '' '') = []"
proof -
  note t = systems_split
  have sp: "is_space CHR '' ''" by (simp add: is_space_def)
  have n1: "''node1'' \<noteq> [] \<and> (\<forall>c \<in> set ''node1''. \<not> is_space c)" by (simp add: is_space_def)
  have n2: "''node2'' \<noteq> [] \<and> (\<forall>c \<in> set ''node2''. \<not> is_space c)" by (simp add: is_space_def)
  have e: "\<forall>c \<in> set ''''. is_space c" by simp
  have s1: "\<forall>c \<in> set '' ''. is_space c" by (simp add: is_space_def)
  have a: "main_systems (Some ''node1'') = [''node1'']" using t n1 by blast
  have b: "main_systems (Some ''node2'') = [''node2'']" using t n2 by blast
  have c: "main_systems (Some '''') = []" using t e by blast
  have d: "main_systems (Some '' '') = []" using t s1 by blast
  have "main_systems (Some ('''' @ CHR '' '' # ''node2'')) = main_systems (Some '''') @ main_systems (Some ''node2'')"
    using t sp by blast
  then have f: "main_systems (Some '' node2'') = [''node2'']" using b c by simp
  have "main_systems (Some (''node1'' @ CHR '' '' # '' node2'')) = main_systems (Some ''node1'') @ main_systems (Some '' node2'')"
    using t sp by blast
  then have "main_systems (Some ''node1  node2'') = [''node1'', ''node2'']" using a f by simp
  moreover have "main_systems None = [''localhost'']" using t by blast
  ultimately show ?thesis using d by blast
qed

text \<open>
  The claim as stated fails for the empty string: \<open>--systems ""\<close> gives no host at all.
\<close>

theorem systems_empty_counterexample:
  "main_systems (Some '''') = [] \<and> main_systems (Some '''') \<noteq> [''localhost'']"
  by (simp add: main_systems_def args_systems_def split_def)

section \<open>Properties of the initial walker positions\<close>

lemma round_shift_pos: "2 ^ k < 2 * m \<Longrightarrow> 0 < round_shift m k"
proof (cases "m div 2 ^ k = 0")
  case True
  assume a: "2 ^ k < 2 * m"
  from True have "m mod 2 ^ k = m" by (simp add: div_eq_0_iff)
  with a True show ?thesis by (simp add: round_shift_def Let_def)
next
  case False
  then show ?thesis by (simp add: round_shift_def Let_def)
qed

lemma round_shift_zero: "2 * m < 2 ^ k \<Longrightarrow> round_shift m k = 0"
proof -
  assume a: "2 * m < 2 ^ k"
  then have "m < 2 ^ k" by simp
  then have "m div 2 ^ k = 0" "m mod 2 ^ k = m" by simp_all
  with a show ?thesis by (simp add: round_shift_def Let_def)
qed

lemma round_finite_nonzero:
  assumes "2 ^ nat (max (bitlen (int m) - 53) (- 1074 - e)) < 2 * m"
  shows "\<not> feq0 (round_finite s m e)"
proof -
  define k where "k = nat (max (bitlen (int m) - 53) (- 1074 - e))"
  have "0 < round_shift m k"
    using assms unfolding k_def by (rule round_shift_pos)
  then show ?thesis
    unfolding round_finite_def Let_def k_def [symmetric] by simp
qed

lemma round_finite_zero:
  assumes "2 * m < 2 ^ nat (max (bitlen (int m) - 53) (- 1074 - e))"
  shows "feq0 (round_finite s m e)"
proof -
  define k where "k = nat (max (bitlen (int m) - 53) (- 1074 - e))"
  have "round_shift m k = 0"
    using assms unfolding k_def by (rule round_shift_zero)
  then show ?thesis
    unfolding round_finite_def Let_def k_def [symmetric] by simp
qed

lemma pow2_le_nat: "0 < m \<Longrightarrow> 0 < a \<Longrightarrow> a = bitlen (int m) - 53 \<Longrightarrow> 2 ^ nat a \<le> m"
proof -
  assume m: "0 < m" and a: "0 < a" and e: "a = bitlen (int m) - 53"
  have "(2::int) ^ nat (bitlen (int m) - 1) \<le> int m"
    using bitlen_bounds [of "int m"] m by simp
  moreover have "(2::int) ^ nat a \<le> 2 ^ nat (bitlen (int m) - 1)"
    using a e by (intro power_increasing) simp_all
  ultimately have "(2::int) ^ nat a \<le> int m" by linarith
  then have "int (2 ^ nat a) \<le> int m" by simp
  then show ?thesis by (simp only: of_nat_le_iff)
qed

lemma scale_no_underflow:
  assumes e: "- 1074 \<le> e" and big: "50 \<le> m * 2 ^ nat (e + 1074)"
  shows "2 ^ nat (max (bitlen (int (m * 5764607523034235)) - 53) (- 1074 - (e + - 59)))
           < 2 * (m * 5764607523034235)"
proof -
  let ?n = "5764607523034235 :: nat"
  let ?M = "m * ?n"
  have m: "0 < m" using big by (cases m) simp_all
  then have M: "0 < ?M" by simp
  define a where "a = bitlen (int ?M) - 53"
  define b where "b = - 1074 - (e + - 59)"
  have A: "2 ^ nat a < 2 * ?M"
  proof (cases "0 < a")
    case True
    then have "2 ^ nat a \<le> ?M" using M a_def by (intro pow2_le_nat) simp_all
    then show ?thesis using M by linarith
  next
    case False
    then have "nat a = 0" by simp
    then show ?thesis using M by simp
  qed
  have B: "2 ^ nat b < 2 * ?M"
  proof (cases "0 < b")
    case True
    then have k: "nat (e + 1074) + nat b = 59" using e b_def by simp
    have "2 ^ nat b * 50 \<le> 2 ^ nat b * (m * 2 ^ nat (e + 1074))" using big by simp
    also have "\<dots> = m * 2 ^ (nat (e + 1074) + nat b)" by (simp add: power_add)
    also have "\<dots> = m * 2 ^ 59" by (simp only: k)
    also have "\<dots> < m * (100 * ?n)" using m by simp
    also have "\<dots> = (2 * ?M) * 50" by simp
    finally show ?thesis by simp
  next
    case False
    then have "nat b = 0" by simp
    then show ?thesis using M by simp
  qed
  have "nat (max a b) = nat a \<or> nat (max a b) = nat b" by (simp add: max_def)
  then have "2 ^ nat (max a b) < 2 * ?M" using A B by metis
  then show ?thesis by (simp only: a_def b_def)
qed

lemma scale_underflow:
  assumes e: "- 1074 \<le> e" and m: "0 < m" and small: "m * 2 ^ nat (e + 1074) < 50"
  shows "2 * (m * 5764607523034235)
           < 2 ^ nat (max (bitlen (int (m * 5764607523034235)) - 53) (- 1074 - (e + - 59)))"
proof -
  let ?n = "5764607523034235 :: nat"
  let ?M = "m * ?n"
  define a where "a = bitlen (int ?M) - 53"
  define b where "b = - 1074 - (e + - 59)"
  have "(2::nat) ^ nat (e + 1074) \<le> m * 2 ^ nat (e + 1074)" using m by simp
  then have "(2::nat) ^ nat (e + 1074) < 50" using small by (rule le_less_trans)
  also have "(50::nat) < 2 ^ 6" by simp
  finally have "(2::nat) ^ nat (e + 1074) < 2 ^ 6" .
  then have "nat (e + 1074) < 6" by (simp only: power_strict_increasing_iff)
  then have k: "nat (e + 1074) + nat b = 59" using e b_def by simp
  have "(2 * ?M) * 2 ^ nat (e + 1074) = (2 * ?n) * (m * 2 ^ nat (e + 1074))" by simp
  also have "\<dots> \<le> (2 * ?n) * 49" using small by (intro mult_left_mono) simp_all
  also have "\<dots> < 2 ^ 59" by simp
  also have "\<dots> = 2 ^ nat b * 2 ^ nat (e + 1074)" using k by (simp add: power_add [symmetric] add.commute)
  finally have "2 * ?M < 2 ^ nat b" by simp
  moreover have "(2::nat) ^ nat b \<le> 2 ^ nat (max a b)" by (intro power_increasing) simp_all
  ultimately have "2 * ?M < 2 ^ nat (max a b)" by linarith
  then show ?thesis by (simp only: a_def b_def)
qed

lemma parerrs_of_nth:
  "i < length parvals \<Longrightarrow>
   parerrs_of parvals ! i = (if feq0 (parvals ! i) then c_0_01 else fmul (parvals ! i) c_0_01)"
  by (simp add: parerrs_of_def np_where_def)

lemma parerrs_of_length: "length (parerrs_of parvals) = length parvals"
  by (simp add: parerrs_of_def np_where_def)

lemma scale_nonzero:
  assumes "feq0 x \<or> above_underflow x"
  shows "\<not> feq0 (if feq0 x then c_0_01 else fmul x c_0_01)"
proof (cases "feq0 x")
  case True
  then show ?thesis by (simp add: c_0_01_def)
next
  case False
  with assms have au: "above_underflow x" by simp
  show ?thesis
  proof (cases x)
    case (Finite s m e)
    with au have "- 1074 \<le> e" "50 \<le> m * 2 ^ nat (e + 1074)"
      by (simp_all add: above_underflow_def)
    then have "\<not> feq0 (round_finite (s \<noteq> False) (m * 5764607523034235) (e + - 59))"
      by (intro round_finite_nonzero scale_no_underflow)
    with False Finite show ?thesis by (simp add: c_0_01_def)
  next
    case (Infinity s)
    then show ?thesis by (simp add: c_0_01_def)
  next
    case NaN
    then show ?thesis by (simp add: c_0_01_def)
  qed
qed

lemma scale_zero:
  assumes "is_double x" "\<not> feq0 x" "\<not> above_underflow x"
  shows "feq0 (if feq0 x then c_0_01 else fmul x c_0_01)"
proof (cases x)
  case (Finite s m e)
  with assms have "- 1074 \<le> e" "0 < m" "m * 2 ^ nat (e + 1074) < 50"
    by (simp_all add: above_underflow_def is_double_def)
  then have "feq0 (round_finite (s \<noteq> False) (m * 5764607523034235) (e + - 59))"
    by (intro round_finite_zero scale_underflow)
  with assms(2) Finite show ?thesis by (simp add: c_0_01_def)
next
  case (Infinity s)
  with assms show ?thesis by (simp add: above_underflow_def)
next
  case NaN
  with assms show ?thesis by (simp add: above_underflow_def)
qed

text \<open>
  Claim C9, as amended. The scale of parameter \<open>i\<close> is \<open>0.01\<close> when the initial value
  compares equal to zero and the float64 product \<open>parvals[i] * 0.01\<close> otherwise. It is
  not zero when the initial value is zero or has magnitude at least \<open>50 * 2^-1074\<close>; for
  a smaller initial value that is not zero the product underflows and the scale is zero.
\<close>

theorem parerrs_pointwise:
  "length (parerrs_of parvals) = length parvals \<and>
   (\<forall>i < length parvals.
      parerrs_of parvals ! i =
        (if feq0 (parvals ! i) then c_0_01 else fmul (parvals ! i) c_0_01) \<and>
      (feq0 (parvals ! i) \<or> above_underflow (parvals ! i) \<longrightarrow> \<not> feq0 (parerrs_of parvals ! i)) \<and>
      (is_double (parvals ! i) \<and> \<not> feq0 (parvals ! i) \<and> \<not> above_underflow (parvals ! i) \<longrightarrow>
         feq0 (parerrs_of parvals ! i)))"
  using scale_nonzero scale_zero by (simp add: parerrs_of_nth parerrs_of_length)



text \<open>
  The claim as stated fails at the smallest positive float64, \<open>5e-324\<close>: it is not zero,
  and its scale is.
\<close>

theorem parerrs_underflow_counterexample:
  "is_double (Finite False 1 (- 1074)) \<and> \<not> feq0 (Finite False 1 (- 1074)) \<and>
   feq0 (parerrs_of [Finite False 1 (- 1074)] ! 0)"
proof -
  have b: "bitlen 5764607523034235 = 53" by code_simp
  have "round_shift 5764607523034235 59 = 0" by (simp add: round_shift_def Let_def)
  then have "round_finite False 5764607523034235 (- 1133) = Finite False 0 (- 1074)"
    by (simp add: round_finite_def Let_def b)
  then show ?thesis
    by (simp add: parerrs_of_def np_where_def c_0_01_def is_double_def)
qed

theorem parerrs_pointwise_witness:
  "parerrs_of [Finite False 1 0, Finite True 0 0, Finite False 1 (- 1074)] ! 0 = fmul (Finite False 1 0) c_0_01 \<and>
   \<not> feq0 (parerrs_of [Finite False 1 0, Finite True 0 0, Finite False 1 (- 1074)] ! 0) \<and>
   parerrs_of [Finite False 1 0, Finite True 0 0, Finite False 1 (- 1074)] ! 1 = c_0_01 \<and>
   \<not> feq0 (parerrs_of [Finite False 1 0, Finite True 0 0, Finite False 1 (- 1074)] ! 1) \<and>
   feq0 (parerrs_of [Finite False 1 0, Finite True 0 0, Finite False 1 (- 1074)] ! 2)"
proof -
  define pv where "pv = [Finite False 1 0, Finite True 0 0, Finite False 1 (- 1074)]"
  have n: "0 < length pv" "1 < length pv" "2 < length pv" by (simp_all add: pv_def)
  have p0: "pv ! 0 = Finite False 1 0" and p1: "pv ! 1 = Finite True 0 0"
    and p2: "pv ! 2 = Finite False 1 (- 1074)" by (simp_all add: pv_def)
  have a0: "\<not> feq0 (pv ! 0)" "above_underflow (pv ! 0)" by (simp_all add: p0 above_underflow_def)
  have z1: "feq0 (pv ! 1)" unfolding p1 by simp
  have u2: "is_double (pv ! 2) \<and> \<not> feq0 (pv ! 2) \<and> \<not> above_underflow (pv ! 2)"
    by (simp add: p2 above_underflow_def is_double_def)
  note t = parerrs_pointwise [of pv, THEN conjunct2, rule_format]
  have "parerrs_of pv ! 0 = fmul (Finite False 1 0) c_0_01"
    using t [OF n(1), THEN conjunct1] a0(1) by (simp only: p0 if_False)
  moreover have "\<not> feq0 (parerrs_of pv ! 0)"
    using t [OF n(1), THEN conjunct2, THEN conjunct1] a0(2) by blast
  moreover have "parerrs_of pv ! 1 = c_0_01"
    using t [OF n(2), THEN conjunct1] z1 by (simp only: if_True)
  moreover have "\<not> feq0 (parerrs_of pv ! 1)"
    using t [OF n(2), THEN conjunct2, THEN conjunct1] z1 by blast
  moreover have "feq0 (parerrs_of pv ! 2)"
    using t [OF n(3), THEN conjunct2, THEN conjunct2] u2 by blast
  ultimately show ?thesis unfolding pv_def by (intro conjI)
qed

lemma draws_length: "length (fst (draws draw g pairs)) = length pairs"
proof (induction pairs arbitrary: g)
  case Nil
  show ?case by simp
next
  case (Cons p pairs)
  obtain loc scale where p: "p = (loc, scale)" by (cases p)
  obtain x g1 where x: "draw g loc scale = (x, g1)" by (cases "draw g loc scale")
  obtain xs g2 where xs: "draws draw g1 pairs = (xs, g2)" by (cases "draws draw g1 pairs")
  have "length xs = length pairs" using Cons [of g1] xs by simp
  then show ?case using p x xs by simp
qed

lemma random_normal_ok:
  assumes "\<not> list_ex fle0 scale" and "length loc = length scale"
  shows "\<exists>v g1. random_normal draw g loc scale = Inr (v, g1) \<and> length v = length loc"
proof -
  obtain v g1 where d: "draws draw g (zip loc scale) = (v, g1)" by (cases "draws draw g (zip loc scale)")
  have "length v = length (zip loc scale)" using draws_length [of draw g "zip loc scale"] d by simp
  then have "length v = length loc" using assms(2) by simp
  moreover have "random_normal draw g loc scale = Inr (v, g1)"
    using assms d by (simp add: random_normal_def broadcast_def)
  ultimately show ?thesis by blast
qed

lemma p0_loop_ok:
  assumes "\<not> list_ex fle0 parerrs" and "length parvals = length parerrs"
  shows "\<exists>vs g1. p0_loop draw parvals parerrs n g = Inr (vs, g1) \<and> length vs = n \<and>
           (\<forall>v \<in> set vs. length v = length parvals)"
proof (induction n arbitrary: g)
  case 0
  show ?case by simp
next
  case (Suc n)
  obtain v g1 where v: "random_normal draw g parvals parerrs = Inr (v, g1)" "length v = length parvals"
    using random_normal_ok [OF assms, of draw g] by blast
  obtain vs g2 where vs: "p0_loop draw parvals parerrs n g1 = Inr (vs, g2)" "length vs = n"
      "\<forall>v \<in> set vs. length v = length parvals"
    using Suc [of g1] by blast
  have "p0_loop draw parvals parerrs (Suc n) g = Inr (v # vs, g2)" using v(1) vs(1) by simp
  moreover have "length (v # vs) = Suc n" using vs(2) by simp
  moreover have "\<forall>u \<in> set (v # vs). length u = length parvals" using v(2) vs(3) by simp
  ultimately show ?case by blast
qed

lemma scale_not_negative:
  assumes "\<not> flt0 x"
  shows "\<not> flt0 (if feq0 x then c_0_01 else fmul x c_0_01)"
proof (cases x)
  case (Finite s m e)
  show ?thesis
  proof (cases "m = 0")
    case True
    with Finite show ?thesis by (simp add: c_0_01_def)
  next
    case False
    with assms Finite have s: "\<not> s" by simp
    define k where "k = nat (max (bitlen (int (m * 5764607523034235)) - 53) (- 1074 - (e + - 59)))"
    have "\<not> flt0 (round_finite False (m * 5764607523034235) (e + - 59))"
      unfolding round_finite_def Let_def k_def [symmetric] by simp
    with False Finite s show ?thesis by (simp add: c_0_01_def)
  qed
next
  case (Infinity s)
  with assms show ?thesis by (simp add: c_0_01_def)
next
  case NaN
  then show ?thesis by (simp add: c_0_01_def)
qed

lemma fle0_iff: "fle0 x \<longleftrightarrow> flt0 x \<or> feq0 x"
  by (cases x) auto

lemma parerrs_accepted:
  assumes "\<forall>x \<in> set parvals. \<not> flt0 x \<and> (feq0 x \<or> above_underflow x)"
  shows "\<not> list_ex fle0 (parerrs_of parvals)"
proof -
  have "\<not> fle0 (parerrs_of parvals ! i)" if "i < length parvals" for i
  proof -
    have "parvals ! i \<in> set parvals" using that by simp
    with assms have x: "\<not> flt0 (parvals ! i)" "feq0 (parvals ! i) \<or> above_underflow (parvals ! i)"
      by blast+
    have "\<not> flt0 (if feq0 (parvals ! i) then c_0_01 else fmul (parvals ! i) c_0_01)"
      using x(1) by (rule scale_not_negative)
    moreover have "\<not> feq0 (if feq0 (parvals ! i) then c_0_01 else fmul (parvals ! i) c_0_01)"
      using x(2) by (rule scale_nonzero)
    ultimately have "\<not> fle0 (if feq0 (parvals ! i) then c_0_01 else fmul (parvals ! i) c_0_01)"
      by (simp only: fle0_iff) simp
    then show ?thesis using that by (simp add: parerrs_of_nth)
  qed
  moreover have "length (parerrs_of parvals) = length parvals"
    by (rule parerrs_of_length)
  ultimately show ?thesis by (auto simp: list_ex_iff in_set_conv_nth)
qed

text \<open>
  For a walker count that is not negative and a catalogue whose initial values are zero
  or positive and not below \<open>50 * 2^-1074\<close>, every scale is positive: the initial batch is
  built, and it holds exactly \<open>nwalkers\<close> vectors, each as long as the catalogue.
\<close>

lemma doMCMC_p0_sizes:
  assumes "0 \<le> nwalkers"
    and "\<forall>x \<in> set parvals. \<not> flt0 x \<and> (feq0 x \<or> above_underflow x)"
  shows "\<exists>p0 g1. doMCMC_p0 draw g parvals nwalkers = Inr (p0, g1) \<and> int (length p0) = nwalkers \<and>
           (\<forall>v \<in> set p0. length v = length parvals)"
proof -
  have "length parvals = length (parerrs_of parvals)" by (simp add: parerrs_of_length)
  with parerrs_accepted [OF assms(2)]
  obtain vs g1 where "p0_loop draw parvals (parerrs_of parvals) (nat nwalkers) g = Inr (vs, g1)"
      "length vs = nat nwalkers" "\<forall>v \<in> set vs. length v = length parvals"
    using p0_loop_ok [of "parerrs_of parvals" parvals draw "nat nwalkers" g] by blast
  then show ?thesis using assms(1) by (simp add: doMCMC_p0_def Let_def)
qed

text \<open>
  Claim C7. The claim promises the initial batch for every catalogue. With the initial
  values \<open>[-1.0, 2.0]\<close> the scales are \<open>[-0.01, 0.02]\<close>: the sampler refuses the negative
  scale, and \<open>doMCMC\<close> ends with a ValueError before any batch exists.
\<close>

theorem doMCMC_p0_negative_value:
  "doMCMC_p0 draw g [Finite True 1 0, Finite False 2 0] 2 = Inl ValueError"
proof -
  have b: "bitlen 5764607523034235 = 53" by code_simp
  have "round_finite True 5764607523034235 (- 59) = Finite True 5764607523034235 (- 59)"
    by (simp add: round_finite_def round_shift_def Let_def b)
  then have "list_ex fle0 (parerrs_of [Finite True 1 0, Finite False 2 0])"
    by (simp add: parerrs_of_def np_where_def c_0_01_def)
  then have "random_normal draw g [Finite True 1 0, Finite False 2 0]
      (parerrs_of [Finite True 1 0, Finite False 2 0]) = Inl ValueError"
    by (simp only: random_normal_def if_True)
  then have "p0_loop draw [Finite True 1 0, Finite False 2 0]
      (parerrs_of [Finite True 1 0, Finite False 2 0]) (Suc (Suc 0)) g = Inl ValueError"
    by (simp only: p0_loop.simps sum.case)
  moreover have "nat 2 = Suc (Suc 0)" by simp
  ultimately show ?thesis by (simp only: doMCMC_p0_def Let_def)
qed

section \<open>Properties of the pool\<close>

declare drain.simps [simp del]

lemma set_remove_nth:
  assumes "p < length q"
  shows "set q = insert (q ! p) (set (take p q @ drop (Suc p) q))"
proof -
  have "q = take p q @ q ! p # drop (Suc p) q" using assms by (rule id_take_nth_drop)
  then have "set q = set (take p q @ q ! p # drop (Suc p) q)" by simp
  then show ?thesis by simp
qed

text \<open>The five ways one step of a run goes, as equations.\<close>

lemma drain_finished: "queue st = [] \<Longrightarrow> drain en bound f t st = (None, st)"
  by (subst drain.simps) simp

lemma drain_exhausted:
  "queue st \<noteq> [] \<Longrightarrow> live st = [] \<Longrightarrow> drain en bound f t st = (Some PoolExhaustedError, st)"
  by (subst drain.simps) simp

lemma drain_success:
  assumes "queue st \<noteq> []" "live st \<noteq> []"
    and "p = pick en t mod length (queue st)" and "it = queue st ! p"
    and "w = live st ! (worker en t mod length (live st))"
    and "succeeds en t w (item_idx it)"
  shows "drain en bound f t st =
     drain en bound f (Suc t)
       (st\<lparr>attempts := attempts st @ [(w, item_idx it)],
           queue := take p (queue st) @ drop (Suc p) (queue st),
           slots := (slots st)[item_idx it := Some (f (item_vec it))]\<rparr>)"
  using assms by (subst drain.simps) (simp add: Let_def)

lemma drain_fatal:
  assumes "queue st \<noteq> []" "live st \<noteq> []"
    and "p = pick en t mod length (queue st)" and "it = queue st ! p"
    and "w = live st ! (worker en t mod length (live st))"
    and "\<not> succeeds en t w (item_idx it)" and "bound \<le> item_retries it"
  shows "drain en bound f t st =
     (Some (EvaluationError (item_idx it)), st\<lparr>attempts := attempts st @ [(w, item_idx it)]\<rparr>)"
  using assms by (subst drain.simps) (simp add: Let_def)

lemma drain_retry:
  assumes "queue st \<noteq> []" "live st \<noteq> []"
    and "p = pick en t mod length (queue st)" and "it = queue st ! p"
    and "w = live st ! (worker en t mod length (live st))"
    and "\<not> succeeds en t w (item_idx it)" and "\<not> bound \<le> item_retries it"
  shows "drain en bound f t st =
     drain en bound f (Suc t)
       (st\<lparr>attempts := attempts st @ [(w, item_idx it)],
           queue := take p (queue st) @ drop (Suc p) (queue st)
                      @ [it\<lparr>item_retries := Suc (item_retries it)\<rparr>],
           live := (if respawns en t w then live st else remove1 w (live st))\<rparr>)"
  using assms by (subst drain.simps) (simp add: Let_def)

text \<open>
  An induction rule for runs: a property holds of the result of a run from a state with
  \<open>I\<close> when the steps that go on keep \<open>I\<close> and the steps that end the run establish the
  property.
\<close>

lemma drain_run [consumes 1, case_names finished exhausted success fatal retry]:
  assumes inv: "I t st"
    and fin: "\<And>t st. I t st \<Longrightarrow> queue st = [] \<Longrightarrow> P (None, st)"
    and exh: "\<And>t st. I t st \<Longrightarrow> queue st \<noteq> [] \<Longrightarrow> live st = [] \<Longrightarrow> P (Some PoolExhaustedError, st)"
    and suc: "\<And>t st p it w. I t st \<Longrightarrow> queue st \<noteq> [] \<Longrightarrow> live st \<noteq> [] \<Longrightarrow>
              p = pick en t mod length (queue st) \<Longrightarrow> p < length (queue st) \<Longrightarrow> it = queue st ! p \<Longrightarrow>
              w = live st ! (worker en t mod length (live st)) \<Longrightarrow>
              succeeds en t w (item_idx it) \<Longrightarrow>
              I (Suc t) (st\<lparr>attempts := attempts st @ [(w, item_idx it)],
                             queue := take p (queue st) @ drop (Suc p) (queue st),
                             slots := (slots st)[item_idx it := Some (f (item_vec it))]\<rparr>)"
    and fat: "\<And>t st p it w. I t st \<Longrightarrow> queue st \<noteq> [] \<Longrightarrow> live st \<noteq> [] \<Longrightarrow>
              p = pick en t mod length (queue st) \<Longrightarrow> p < length (queue st) \<Longrightarrow> it = queue st ! p \<Longrightarrow>
              w = live st ! (worker en t mod length (live st)) \<Longrightarrow>
              \<not> succeeds en t w (item_idx it) \<Longrightarrow> bound \<le> item_retries it \<Longrightarrow>
              P (Some (EvaluationError (item_idx it)), st\<lparr>attempts := attempts st @ [(w, item_idx it)]\<rparr>)"
    and ret: "\<And>t st p it w. I t st \<Longrightarrow> queue st \<noteq> [] \<Longrightarrow> live st \<noteq> [] \<Longrightarrow>
              p = pick en t mod length (queue st) \<Longrightarrow> p < length (queue st) \<Longrightarrow> it = queue st ! p \<Longrightarrow>
              w = live st ! (worker en t mod length (live st)) \<Longrightarrow>
              \<not> succeeds en t w (item_idx it) \<Longrightarrow> item_retries it < bound \<Longrightarrow>
              I (Suc t) (st\<lparr>attempts := attempts st @ [(w, item_idx it)],
                             queue := take p (queue st) @ drop (Suc p) (queue st)
                                        @ [it\<lparr>item_retries := Suc (item_retries it)\<rparr>],
                             live := (if respawns en t w then live st else remove1 w (live st))\<rparr>)"
  shows "P (drain en bound f t st)"
proof -
  have "en' = en \<longrightarrow> bound' = bound \<longrightarrow> f' = f \<longrightarrow> I t st \<longrightarrow> P (drain en' bound' f' t st)"
    for en' bound' f'
  proof (induction en' bound' f' t st rule: drain.induct)
    case (1 en' bound' f' t st)
    show ?case
    proof (intro impI)
      assume e: "en' = en" "bound' = bound" "f' = f" and i: "I t st"
      define p where "p = pick en t mod length (queue st)"
      define it where "it = queue st ! p"
      define w where "w = live st ! (worker en t mod length (live st))"
      show "P (drain en' bound' f' t st)"
      proof (cases "queue st = []")
        case True
        then show ?thesis using fin [OF i] by (simp add: drain_finished)
      next
        case q: False
        then have pl: "p < length (queue st)" by (simp add: p_def)
        show ?thesis
        proof (cases "live st = []")
          case True
          then show ?thesis using exh [OF i q] q by (simp add: drain_exhausted)
        next
          case l: False
          show ?thesis
          proof (cases "succeeds en t w (item_idx it)")
            case True
            let ?st = "st\<lparr>attempts := attempts st @ [(w, item_idx it)],
                             queue := take p (queue st) @ drop (Suc p) (queue st),
                             slots := (slots st)[item_idx it := Some (f (item_vec it))]\<rparr>"
            have "I (Suc t) ?st" using i q l p_def pl it_def w_def True by (rule suc)
            moreover have "en' = en \<longrightarrow> bound' = bound \<longrightarrow> f' = f \<longrightarrow> I (Suc t) ?st \<longrightarrow>
                P (drain en' bound' f' (Suc t) ?st)"
              using "1.IH"(1) [OF q l refl refl refl refl refl refl] True
              unfolding e p_def it_def w_def by simp
            ultimately have "P (drain en bound f (Suc t) ?st)" using e by simp
            then show ?thesis
              unfolding e using drain_success [OF q l p_def it_def w_def True, of bound f] by simp
          next
            case False
            show ?thesis
            proof (cases "bound \<le> item_retries it")
              case True
              then show ?thesis
                unfolding e using fat [OF i q l p_def pl it_def w_def False True]
                  drain_fatal [OF q l p_def it_def w_def False True, of f] by simp
            next
              case nb: False
              let ?st = "st\<lparr>attempts := attempts st @ [(w, item_idx it)],
                             queue := take p (queue st) @ drop (Suc p) (queue st)
                                        @ [it\<lparr>item_retries := Suc (item_retries it)\<rparr>],
                             live := (if respawns en t w then live st else remove1 w (live st))\<rparr>"
              from nb have lt: "item_retries it < bound" by simp
              have "I (Suc t) ?st" using i q l p_def pl it_def w_def False lt by (rule ret)
              moreover have "en' = en \<longrightarrow> bound' = bound \<longrightarrow> f' = f \<longrightarrow> I (Suc t) ?st \<longrightarrow>
                  P (drain en' bound' f' (Suc t) ?st)"
                using "1.IH"(2) [OF q l refl refl refl refl refl refl] False nb
                unfolding e p_def it_def w_def by simp
              ultimately have "P (drain en bound f (Suc t) ?st)" using e by simp
              then show ?thesis
                unfolding e using drain_retry [OF q l p_def it_def w_def False nb, of f] by simp
            qed
          qed
        qed
      qed
    qed
  qed
  then show ?thesis using inv by simp
qed

lemma slots_ok_init: "slots_ok f batch (init_state hosts batch)"
  by (force simp: slots_ok_def init_state_def)

lemma drain_slots_ok:
  assumes "slots_ok f batch st"
  shows "slots_ok f batch (snd (drain en bound f t st)) \<and>
         (fst (drain en bound f t st) = None \<longrightarrow> queue (snd (drain en bound f t st)) = [])"
  using assms
proof (induction rule: drain_run [where I = "\<lambda>t st. slots_ok f batch st"
        and P = "\<lambda>r. slots_ok f batch (snd r) \<and> (fst r = None \<longrightarrow> queue (snd r) = [])"])
  case (finished t st)
  then show ?case by simp
next
  case (exhausted t st)
  then show ?case by simp
next
  case (success t st p it w)
  have mem: "it \<in> set (queue st)" using success by simp
  have qs: "set (queue st) = insert it (set (take p (queue st) @ drop (Suc p) (queue st)))"
    using set_remove_nth [of p "queue st"] success by simp
  have sub: "set (take p (queue st) @ drop (Suc p) (queue st)) \<subseteq> set (queue st)"
    using qs by blast
  have it: "item_idx it < length batch" "item_vec it = batch ! item_idx it"
    using success(1) mem by (simp_all add: slots_ok_def)
  have len: "length (slots st) = length batch" using success(1) by (simp add: slots_ok_def)
  show ?case
    unfolding slots_ok_def
  proof (intro conjI ballI allI impI)
    show "length (slots (st\<lparr>attempts := attempts st @ [(w, item_idx it)],
              queue := take p (queue st) @ drop (Suc p) (queue st),
              slots := (slots st)[item_idx it := Some (f (item_vec it))]\<rparr>)) = length batch"
      using len by simp
  next
    fix x assume "x \<in> set (queue (st\<lparr>attempts := attempts st @ [(w, item_idx it)],
              queue := take p (queue st) @ drop (Suc p) (queue st),
              slots := (slots st)[item_idx it := Some (f (item_vec it))]\<rparr>))"
    then have "x \<in> set (queue st)" using sub by auto
    then show "item_idx x < length batch" "item_vec x = batch ! item_idx x"
      using success(1) by (simp_all add: slots_ok_def)
  next
    fix i assume i: "i < length batch"
    show "case slots (st\<lparr>attempts := attempts st @ [(w, item_idx it)],
              queue := take p (queue st) @ drop (Suc p) (queue st),
              slots := (slots st)[item_idx it := Some (f (item_vec it))]\<rparr>) ! i of
            None \<Rightarrow> i \<in> item_idx ` set (queue (st\<lparr>attempts := attempts st @ [(w, item_idx it)],
              queue := take p (queue st) @ drop (Suc p) (queue st),
              slots := (slots st)[item_idx it := Some (f (item_vec it))]\<rparr>))
          | Some x \<Rightarrow> x = f (batch ! i)"
    proof (cases "i = item_idx it")
      case True
      then show ?thesis using it len by simp
    next
      case False
      have old: "case slots st ! i of None \<Rightarrow> i \<in> item_idx ` set (queue st) | Some x \<Rightarrow> x = f (batch ! i)"
        using success(1) i by (simp add: slots_ok_def)
      show ?thesis
      proof (cases "slots st ! i")
        case None
        with old have "i \<in> item_idx ` set (queue st)" by simp
        then obtain y where y: "y \<in> set (queue st)" "item_idx y = i" by auto
        with False have "y \<noteq> it" by auto
        with y qs have "y \<in> set (take p (queue st) @ drop (Suc p) (queue st))" by auto
        with y(2) have "i \<in> item_idx ` set (take p (queue st) @ drop (Suc p) (queue st))" by blast
        with None False show ?thesis by simp
      next
        case (Some x)
        with old False show ?thesis by simp
      qed
    qed
  qed
next
  case (fatal t st p it w)
  then show ?case by (auto simp: slots_ok_def split: option.splits)
next
  case (retry t st p it w)
  have qs: "set (queue st) = insert it (set (take p (queue st) @ drop (Suc p) (queue st)))"
    using set_remove_nth [of p "queue st"] retry by simp
  have idx: "item_idx ` set (take p (queue st) @ drop (Suc p) (queue st)
                @ [it\<lparr>item_retries := Suc (item_retries it)\<rparr>]) = item_idx ` set (queue st)"
    using qs by auto
  have all: "\<forall>x \<in> set (take p (queue st) @ drop (Suc p) (queue st)
                @ [it\<lparr>item_retries := Suc (item_retries it)\<rparr>]).
       item_idx x < length batch \<and> item_vec x = batch ! item_idx x"
    using retry(1) qs by (auto simp: slots_ok_def)
  show ?case
    using retry(1) all idx unfolding slots_ok_def by (auto split: option.splits)
qed

lemma assemble_Inr: "assemble k sl = Inr rs \<Longrightarrow> sl = map Some rs"
proof (induction k sl arbitrary: rs rule: assemble.induct)
  case (1 i)
  then show ?case by simp
next
  case (2 i rest)
  then show ?case by simp
next
  case (3 i x rest)
  then show ?case by (auto split: sum.splits)
qed

lemma assemble_filled: "\<forall>s \<in> set sl. s \<noteq> None \<Longrightarrow> assemble k sl = Inr (map the sl)"
proof (induction k sl rule: assemble.induct)
  case (1 i)
  then show ?case by simp
next
  case (2 i rest)
  then show ?case by simp
next
  case (3 i x rest)
  then show ?case by simp
qed

lemma drain_no_failure:
  assumes "live st \<noteq> []" and "\<forall>t w i. succeeds en t w i"
  shows "fst (drain en bound f t st) = None"
  using assms(1)
proof (induction rule: drain_run [where I = "\<lambda>t st. live st \<noteq> []" and P = "\<lambda>r. fst r = None"])
  case (finished t st)
  then show ?case by simp
next
  case (exhausted t st)
  then show ?case by simp
next
  case (success t st p it w)
  then show ?case by simp
next
  case (fatal t st p it w)
  then show ?case using assms(2) by simp
next
  case (retry t st p it w)
  then show ?case using assms(2) by simp
qed

text \<open>
  Claim C1. Whatever the environment does (the order in which evaluations resolve, the
  worker that runs each, the failures and the respawns), \<open>evaluate\<close> either fails with a
  fatal error or returns exactly one value per vector of the batch, the value at
  position \<open>i\<close> being the fit statistic of vector \<open>i\<close>; it never returns a shorter or
  reordered sequence. With at least one host and no failing evaluation it does return
  the values.
\<close>

theorem evaluate_index_fidelity:
  "((\<exists>e. snd (evaluate en bound f hosts batch) = Inl e) \<or>
    (\<exists>rs. snd (evaluate en bound f hosts batch) = Inr rs \<and> length rs = length batch \<and>
           (\<forall>i < length batch. rs ! i = f (batch ! i)))) \<and>
   (hosts \<noteq> [] \<and> (\<forall>t w i. succeeds en t w i) \<longrightarrow>
      snd (evaluate en bound f hosts batch) = Inr (map f batch))"
proof -
  define r where "r = drain en bound f 0 (init_state hosts batch)"
  have ok: "slots_ok f batch (snd r)" and emp: "fst r = None \<longrightarrow> queue (snd r) = []"
    using drain_slots_ok [OF slots_ok_init, where en = en and bound = bound and t = 0]
    by (simp_all add: r_def)
  have ev: "snd (evaluate en bound f hosts batch) =
      (case fst r of Some e \<Rightarrow> Inl e | None \<Rightarrow> assemble 0 (slots (snd r)))"
    by (simp add: evaluate_def r_def split: prod.splits option.splits)
  have vals: "rs = map f batch" if "snd (evaluate en bound f hosts batch) = Inr rs" for rs
  proof -
    from that ev have "assemble 0 (slots (snd r)) = Inr rs" by (simp split: option.splits)
    then have sl: "slots (snd r) = map Some rs" by (rule assemble_Inr)
    then have len: "length rs = length batch" using ok by (simp add: slots_ok_def)
    have "rs ! i = f (batch ! i)" if "i < length batch" for i
    proof -
      have "slots (snd r) ! i = Some (rs ! i)" using sl that len by simp
      moreover have "case slots (snd r) ! i of None \<Rightarrow> i \<in> item_idx ` set (queue (snd r))
          | Some x \<Rightarrow> x = f (batch ! i)"
        using ok that by (simp add: slots_ok_def)
      ultimately show ?thesis by simp
    qed
    then show ?thesis using len by (simp add: list_eq_iff_nth_eq)
  qed
  have first: "(\<exists>e. snd (evaluate en bound f hosts batch) = Inl e) \<or>
    (\<exists>rs. snd (evaluate en bound f hosts batch) = Inr rs \<and> length rs = length batch \<and>
           (\<forall>i < length batch. rs ! i = f (batch ! i)))"
  proof (cases "snd (evaluate en bound f hosts batch)")
    case (Inl e)
    then show ?thesis by simp
  next
    case (Inr rs)
    with vals have "rs = map f batch" by simp
    with Inr show ?thesis by simp
  qed
  have second: "snd (evaluate en bound f hosts batch) = Inr (map f batch)"
    if h: "hosts \<noteq> []" and s: "\<forall>t w i. succeeds en t w i"
  proof -
    have "live (init_state hosts batch) \<noteq> []" using h by (simp add: init_state_def)
    then have none: "fst r = None" unfolding r_def using s by (rule drain_no_failure)
    with emp have q: "queue (snd r) = []" by simp
    have "s \<noteq> None" if "s \<in> set (slots (snd r))" for s
    proof -
      from that obtain i where i: "i < length (slots (snd r))" "slots (snd r) ! i = s"
        by (auto simp: in_set_conv_nth)
      then have "i < length batch" using ok by (simp add: slots_ok_def)
      then have "case slots (snd r) ! i of None \<Rightarrow> i \<in> item_idx ` set (queue (snd r))
          | Some x \<Rightarrow> x = f (batch ! i)"
        using ok by (simp add: slots_ok_def)
      with q i(2) show ?thesis by (auto split: option.splits)
    qed
    then have "assemble 0 (slots (snd r)) = Inr (map the (slots (snd r)))"
      by (intro assemble_filled) simp
    with ev none have "snd (evaluate en bound f hosts batch) = Inr (map the (slots (snd r)))"
      by simp
    with vals show ?thesis by simp
  qed
  from first second show ?thesis by blast
qed

theorem evaluate_index_fidelity_witness:
  "fst (evaluate ex_env 3 ex_fit [''a'', ''b''] ex_batch) = [(0, 1), (1, 0), (0, 0), (1, 2), (0, 0)] \<and>
   (\<exists>rs. snd (evaluate ex_env 3 ex_fit [''a'', ''b''] ex_batch) = Inr rs \<and> length rs = 3 \<and>
      rs ! 0 = ex_fit (ex_batch ! 0) \<and> rs ! 1 = ex_fit (ex_batch ! 1) \<and> rs ! 2 = ex_fit (ex_batch ! 2)) \<and>
   snd (evaluate one_failing_env 3 ex_fit [''a''] ex_batch) = Inl (EvaluationError 1) \<and>
   snd (evaluate \<lparr>pick = (\<lambda>t. t), worker = (\<lambda>t. t), succeeds = (\<lambda>t w i. True),
                   respawns = (\<lambda>t w. False)\<rparr> 3 ex_fit [''a'', ''b''] ex_batch) =
     Inr (map ex_fit ex_batch)"
proof -
  have run: "evaluate ex_env 3 ex_fit [''a'', ''b''] ex_batch =
      ([(0, 1), (1, 0), (0, 0), (1, 2), (0, 0)], Inr [Finite True 1 0, Finite True 2 0, Finite True 3 0])"
    by code_simp
  have bad: "snd (evaluate one_failing_env 3 ex_fit [''a''] ex_batch) = Inl (EvaluationError 1)"
    by code_simp
  have len: "length ex_batch = 3" by (simp add: ex_batch_def)
  note t = evaluate_index_fidelity [of ex_env 3 ex_fit "[''a'', ''b'']" ex_batch]
  from t run obtain rs where rs: "snd (evaluate ex_env 3 ex_fit [''a'', ''b''] ex_batch) = Inr rs"
      "length rs = length ex_batch" "\<forall>i < length ex_batch. rs ! i = ex_fit (ex_batch ! i)"
    by auto
  have a: "\<exists>rs. snd (evaluate ex_env 3 ex_fit [''a'', ''b''] ex_batch) = Inr rs \<and> length rs = 3 \<and>
      rs ! 0 = ex_fit (ex_batch ! 0) \<and> rs ! 1 = ex_fit (ex_batch ! 1) \<and> rs ! 2 = ex_fit (ex_batch ! 2)"
    using rs len by auto
  have "[''a'', ''b''] \<noteq> [] \<and> (\<forall>t w i. succeeds \<lparr>pick = (\<lambda>t. t), worker = (\<lambda>t. t),
       succeeds = (\<lambda>t w i. True), respawns = (\<lambda>t w. False)\<rparr> t w i)" by simp
  then have b: "snd (evaluate \<lparr>pick = (\<lambda>t. t), worker = (\<lambda>t. t), succeeds = (\<lambda>t w i. True),
                   respawns = (\<lambda>t w. False)\<rparr> 3 ex_fit [''a'', ''b''] ex_batch) =
     Inr (map ex_fit ex_batch)"
    using evaluate_index_fidelity [of _ 3 ex_fit "[''a'', ''b'']" ex_batch] by blast
  from run a bad b show ?thesis by simp
qed

lemma retries_ok_init: "retries_ok bound (init_state hosts batch)"
  by (simp add: retries_ok_def init_state_def attempts_on_def comp_def)

lemma distinct_remove_nth:
  assumes "distinct (map g q)" and "p < length q"
  shows "distinct (map g (take p q @ drop (Suc p) q)) \<and>
         g (q ! p) \<notin> g ` set (take p q @ drop (Suc p) q)"
proof -
  have "q = take p q @ q ! p # drop (Suc p) q" using assms(2) by (rule id_take_nth_drop)
  then have "distinct (map g (take p q @ q ! p # drop (Suc p) q))" using assms(1) by simp
  then show ?thesis by auto
qed

lemma attempts_on_snoc:
  "attempts_on (atts @ [(w, j)]) i = attempts_on atts i + (if j = i then 1 else 0)"
  by (simp add: attempts_on_def)

lemma drain_always_failing:
  assumes "retries_ok bound st" and "i \<in> item_idx ` set (queue st)"
    and fails: "\<forall>t w. \<not> succeeds en t w i"
  shows "\<exists>e. fst (drain en bound f t st) = Some e \<and>
           attempts_on (attempts (snd (drain en bound f t st))) i \<le> Suc bound \<and>
           (e = EvaluationError i \<longrightarrow>
              attempts_on (attempts (snd (drain en bound f t st))) i = Suc bound \<and>
              attempts (snd (drain en bound f t st)) \<noteq> [] \<and>
              snd (last (attempts (snd (drain en bound f t st)))) = i) \<and>
           (e \<noteq> EvaluationError i \<longrightarrow>
              attempts_on (attempts (snd (drain en bound f t st))) i \<le> bound)"
proof -
  have "retries_ok bound st \<and> i \<in> item_idx ` set (queue st)" using assms by simp
  then show ?thesis
  proof (induction rule: drain_run [where
      I = "\<lambda>t st. retries_ok bound st \<and> i \<in> item_idx ` set (queue st)" and
      P = "\<lambda>r. \<exists>e. fst r = Some e \<and> attempts_on (attempts (snd r)) i \<le> Suc bound \<and>
           (e = EvaluationError i \<longrightarrow> attempts_on (attempts (snd r)) i = Suc bound \<and>
              attempts (snd r) \<noteq> [] \<and> snd (last (attempts (snd r))) = i) \<and>
           (e \<noteq> EvaluationError i \<longrightarrow> attempts_on (attempts (snd r)) i \<le> bound)"])
    case (finished t st)
    then show ?case by simp
  next
    case (exhausted t st)
    then obtain y where "y \<in> set (queue st)" "item_idx y = i" by auto
    with exhausted(1) have "attempts_on (attempts st) i \<le> bound" by (auto simp: retries_ok_def)
    then show ?case by simp
  next
    case (success t st p it w)
    let ?rest = "take p (queue st) @ drop (Suc p) (queue st)"
    have ok: "retries_ok bound st" and iq: "i \<in> item_idx ` set (queue st)" using success(1) by simp_all
    have ne: "item_idx it \<noteq> i" using success fails by auto
    have qs: "set (queue st) = insert it (set ?rest)"
      using set_remove_nth [of p "queue st"] success by simp
    have d: "distinct (map item_idx ?rest)" "item_idx it \<notin> item_idx ` set ?rest"
      using distinct_remove_nth [of item_idx "queue st" p] ok success by (simp_all add: retries_ok_def)
    have "\<forall>x \<in> set ?rest. attempts_on (attempts st @ [(w, item_idx it)]) (item_idx x) = item_retries x
            \<and> item_retries x \<le> bound"
    proof
      fix x assume x: "x \<in> set ?rest"
      then have "x \<in> set (queue st)" using qs by blast
      then have "attempts_on (attempts st) (item_idx x) = item_retries x \<and> item_retries x \<le> bound"
        using ok by (simp add: retries_ok_def)
      moreover have "item_idx it \<noteq> item_idx x" using d(2) x by force
      ultimately show "attempts_on (attempts st @ [(w, item_idx it)]) (item_idx x) = item_retries x
            \<and> item_retries x \<le> bound" by (simp add: attempts_on_snoc)
    qed
    moreover have "i \<in> item_idx ` set ?rest" using iq qs ne by auto
    ultimately show ?case using d(1) by (simp add: retries_ok_def)
  next
    case (fatal t st p it w)
    have ok: "retries_ok bound st" and iq: "i \<in> item_idx ` set (queue st)" using fatal(1) by simp_all
    have mem: "it \<in> set (queue st)" using fatal by simp
    show ?case
    proof (cases "item_idx it = i")
      case True
      have "attempts_on (attempts st) (item_idx it) = item_retries it" "item_retries it \<le> bound"
        using ok mem by (simp_all add: retries_ok_def)
      with fatal True have "attempts_on (attempts st) i = bound" by simp
      with True show ?thesis by (simp add: attempts_on_snoc)
    next
      case False
      from iq obtain y where "y \<in> set (queue st)" "item_idx y = i" by auto
      with ok have "attempts_on (attempts st) i \<le> bound" by (auto simp: retries_ok_def)
      with False show ?thesis by (simp add: attempts_on_snoc)
    qed
  next
    case (retry t st p it w)
    let ?rest = "take p (queue st) @ drop (Suc p) (queue st)"
    let ?it = "it\<lparr>item_retries := Suc (item_retries it)\<rparr>"
    have ok: "retries_ok bound st" and iq: "i \<in> item_idx ` set (queue st)" using retry(1) by simp_all
    have mem: "it \<in> set (queue st)" using retry by simp
    have qs: "set (queue st) = insert it (set ?rest)"
      using set_remove_nth [of p "queue st"] retry by simp
    have d: "distinct (map item_idx ?rest)" "item_idx it \<notin> item_idx ` set ?rest"
      using distinct_remove_nth [of item_idx "queue st" p] ok retry by (simp_all add: retries_ok_def)
    have "\<forall>x \<in> set (?rest @ [?it]). attempts_on (attempts st @ [(w, item_idx it)]) (item_idx x) = item_retries x
            \<and> item_retries x \<le> bound"
    proof
      fix x assume x: "x \<in> set (?rest @ [?it])"
      show "attempts_on (attempts st @ [(w, item_idx it)]) (item_idx x) = item_retries x
            \<and> item_retries x \<le> bound"
      proof (cases "x = ?it")
        case True
        have "attempts_on (attempts st) (item_idx it) = item_retries it"
          using ok mem by (simp add: retries_ok_def)
        with True retry show ?thesis by (simp add: attempts_on_snoc)
      next
        case False
        with x have xr: "x \<in> set ?rest" by simp
        then have "x \<in> set (queue st)" using qs by blast
        then have "attempts_on (attempts st) (item_idx x) = item_retries x \<and> item_retries x \<le> bound"
          using ok by (simp add: retries_ok_def)
        moreover have "item_idx it \<noteq> item_idx x" using d(2) xr by force
        ultimately show ?thesis by (simp add: attempts_on_snoc)
      qed
    qed
    moreover have "distinct (map item_idx (?rest @ [?it]))" using d by auto
    moreover have "i \<in> item_idx ` set (?rest @ [?it])" using iq qs by auto
    ultimately show ?case by (simp add: retries_ok_def)
  qed
qed

lemma drain_only_failing:
  assumes "live st \<noteq> []" and others: "\<forall>t w j. j \<noteq> i \<longrightarrow> succeeds en t w j"
    and resp: "\<forall>t w. respawns en t w"
  shows "fst (drain en bound f t st) = None \<or> fst (drain en bound f t st) = Some (EvaluationError i)"
  using assms(1)
proof (induction rule: drain_run [where I = "\<lambda>t st. live st \<noteq> []"
        and P = "\<lambda>r. fst r = None \<or> fst r = Some (EvaluationError i)"])
  case (finished t st)
  then show ?case by simp
next
  case (exhausted t st)
  then show ?case by simp
next
  case (success t st p it w)
  then show ?case by simp
next
  case (fatal t st p it w)
  then have "item_idx it = i" using others by blast
  then show ?case by simp
next
  case (retry t st p it w)
  then show ?case using resp by simp
qed

text \<open>
  Claim C6, as amended. When the evaluation of batch index \<open>i\<close> always fails, the batch
  ends in a fatal error, and at most \<open>bound + 1\<close> attempts of index \<open>i\<close> have resolved. When
  the error is the \<open>EvaluationError\<close> of index \<open>i\<close>, exactly \<open>bound + 1\<close> attempts of it have
  resolved and the last of them is the last attempt of the whole batch. When the error
  is another one (the \<open>EvaluationError\<close> of another index, or \<open>PoolExhaustedError\<close>), at most
  \<open>bound\<close> attempts of index \<open>i\<close> have resolved. The error is that of index \<open>i\<close> when there
  is a host, every worker respawns and no other index ever fails.
\<close>

theorem retry_bound_respected:
  assumes "i < length batch" and "\<forall>t w. \<not> succeeds en t w i"
  shows "\<exists>e. snd (evaluate en bound f hosts batch) = Inl e \<and>
     attempts_on (fst (evaluate en bound f hosts batch)) i \<le> bound + 1 \<and>
     (e = EvaluationError i \<longrightarrow>
        attempts_on (fst (evaluate en bound f hosts batch)) i = bound + 1 \<and>
        fst (evaluate en bound f hosts batch) \<noteq> [] \<and>
        snd (last (fst (evaluate en bound f hosts batch))) = i) \<and>
     (e \<noteq> EvaluationError i \<longrightarrow>
        attempts_on (fst (evaluate en bound f hosts batch)) i \<le> bound) \<and>
     (hosts \<noteq> [] \<and> (\<forall>t w j. j \<noteq> i \<longrightarrow> succeeds en t w j) \<and> (\<forall>t w. respawns en t w) \<longrightarrow>
        e = EvaluationError i)"
proof -
  define r where "r = drain en bound f 0 (init_state hosts batch)"
  have iq: "i \<in> item_idx ` set (queue (init_state hosts batch))"
    using assms(1) by (force simp: init_state_def)
  obtain e where e: "fst r = Some e" "attempts_on (attempts (snd r)) i \<le> Suc bound"
      "e = EvaluationError i \<longrightarrow> attempts_on (attempts (snd r)) i = Suc bound \<and>
         attempts (snd r) \<noteq> [] \<and> snd (last (attempts (snd r))) = i"
      "e \<noteq> EvaluationError i \<longrightarrow> attempts_on (attempts (snd r)) i \<le> bound"
    using drain_always_failing [OF retries_ok_init iq assms(2), of bound f 0] unfolding r_def by blast
  have ev: "evaluate en bound f hosts batch = (attempts (snd r), Inl e)"
    using e(1) by (cases r) (simp add: evaluate_def r_def [symmetric])
  have only: "e = EvaluationError i"
    if h: "hosts \<noteq> [] \<and> (\<forall>t w j. j \<noteq> i \<longrightarrow> succeeds en t w j) \<and> (\<forall>t w. respawns en t w)"
  proof -
    have "live (init_state hosts batch) \<noteq> []" using h by (simp add: init_state_def)
    then have "fst r = None \<or> fst r = Some (EvaluationError i)"
      unfolding r_def using h by (intro drain_only_failing) blast+
    with e(1) show ?thesis by simp
  qed
  show ?thesis
    apply (rule exI [of _ e])
    using e(2,3,4) only by (simp add: ev)
qed

theorem retry_bound_respected_witness:
  "snd (evaluate one_failing_env 3 ex_fit [''a''] ex_batch) = Inl (EvaluationError 1) \<and>
   attempts_on (fst (evaluate one_failing_env 3 ex_fit [''a''] ex_batch)) 1 = 3 + 1 \<and>
   snd (last (fst (evaluate one_failing_env 3 ex_fit [''a''] ex_batch))) = 1 \<and>
   snd (evaluate failing_env 1 ex_fit [''a''] ex_batch) = Inl (EvaluationError 0) \<and>
   attempts_on (fst (evaluate failing_env 1 ex_fit [''a''] ex_batch)) 1 \<le> 1"
proof -
  have h1: "1 < length ex_batch" by (simp add: ex_batch_def)
  have h2: "\<forall>t w. \<not> succeeds one_failing_env t w 1" by (simp add: one_failing_env_def)
  have h3: "[''a''] \<noteq> [] \<and> (\<forall>t w j. j \<noteq> 1 \<longrightarrow> succeeds one_failing_env t w j) \<and>
      (\<forall>t w. respawns one_failing_env t w)" by (simp add: one_failing_env_def)
  from retry_bound_respected [OF h1 h2, of 3 ex_fit "[''a'']"] h3
  have a: "snd (evaluate one_failing_env 3 ex_fit [''a''] ex_batch) = Inl (EvaluationError 1) \<and>
   attempts_on (fst (evaluate one_failing_env 3 ex_fit [''a''] ex_batch)) 1 = 3 + 1 \<and>
   snd (last (fst (evaluate one_failing_env 3 ex_fit [''a''] ex_batch))) = 1"
    by auto
  have h4: "\<forall>t w. \<not> succeeds failing_env t w 1" by (simp add: failing_env_def)
  have other: "snd (evaluate failing_env 1 ex_fit [''a''] ex_batch) = Inl (EvaluationError 0)"
    by code_simp
  from retry_bound_respected [OF h1 h4, of 1 ex_fit "[''a'']"] other
  have b: "attempts_on (fst (evaluate failing_env 1 ex_fit [''a''] ex_batch)) 1 \<le> 1"
    by auto
  from a other b show ?thesis by blast
qed

text \<open>
  The claim as stated fails when the batch is aborted for another reason first. With two
  indices that always fail and bound 1, the error of index 0 ends the batch when index 1
  has been attempted once; with a single worker that does not come back, the pool is
  exhausted after the first attempt.
\<close>

theorem retry_bound_counterexample:
  "snd (evaluate failing_env 1 ex_fit [''a''] ex_batch) = Inl (EvaluationError 0) \<and>
   attempts_on (fst (evaluate failing_env 1 ex_fit [''a''] ex_batch)) 1 = 1 \<and>
   snd (evaluate \<lparr>pick = (\<lambda>t. 0), worker = (\<lambda>t. 0), succeeds = (\<lambda>t w i. False),
                   respawns = (\<lambda>t w. False)\<rparr> 3 ex_fit [''a''] ex_batch) = Inl PoolExhaustedError \<and>
   attempts_on (fst (evaluate \<lparr>pick = (\<lambda>t. 0), worker = (\<lambda>t. 0), succeeds = (\<lambda>t w i. False),
                   respawns = (\<lambda>t w. False)\<rparr> 3 ex_fit [''a''] ex_batch)) 0 = 1"
  by code_simp

end
